theory Spec2Isabelle
  imports Complex_Main "HOL-Library.AList"
begin

section \<open>Python values shared by the modules\<close>

text \<open>
  Exceptions are values: a fallible operation returns \<open>error + 'a\<close>, with \<open>Inl\<close> the
  exception raised. Objects live in a store (a list indexed by address), so that a
  mutation through one reference is seen through every other one. A \<open>dict\<close> is an
  association list in insertion order, which is the order Python iterates it in;
  \<open>AList.update\<close> overwrites an existing key in place and appends a new one, as
  \<open>d[k] = v\<close> does. The \<open>float\<close> and \<open>np.float32\<close> quantities are idealised as
  exact reals.
\<close>

datatype error =
  KeyError | ValueError | IndexError | ZeroDivisionError | AssertionError
  | FullyExpanded | UnexpandedAction

type_synonym action = nat
type_synonym ref = nat

section \<open>alphazero.py\<close>

subsection \<open>class Node\<close>

text \<open>
  \<open>visits\<close> starts at 1 and is only ever incremented, so it is a natural number;
  \<open>action_space_n\<close> is \<open>action_space.n\<close> of the \<open>gym.spaces.Discrete\<close> space, whose
  \<open>start\<close> is 0.
\<close>

record 'o az_node =
  parent :: "ref option"
  children :: "(action \<times> ref) list"
  visits :: nat
  subtree_value :: real
  value_evaluation :: real
  reward :: real
  action_space_n :: nat
  observation :: "'o option"
  terminal :: bool

definition Node_init :: "ref option \<Rightarrow> real \<Rightarrow> nat \<Rightarrow> 'o option \<Rightarrow> bool \<Rightarrow> 'o az_node" where
  "Node_init p r n obs t =
     \<lparr>parent = p, children = [], visits = 1, subtree_value = 0, value_evaluation = 0,
      reward = r, action_space_n = n, observation = obs, terminal = t\<rparr>"

definition Node_is_terminal :: "'o az_node \<Rightarrow> bool" where
  "Node_is_terminal self = terminal self"

text \<open>\<open>step\<close>: \<open>child = self.children[action]; child.visits += 1; return child\<close>.\<close>

definition Node_step :: "'o az_node list \<Rightarrow> ref \<Rightarrow> action \<Rightarrow> error + (ref \<times> 'o az_node list)" where
  "Node_step ns self a =
     (case map_of (children (ns ! self)) a of
        None \<Rightarrow> Inl KeyError
      | Some child \<Rightarrow>
          Inr (child, ns[child := (ns ! child)\<lparr>visits := visits (ns ! child) + 1\<rparr>]))"

text \<open>\<open>default_value\<close>: \<open>self.subtree_value / self.visits\<close>, a \<open>float\<close> divided by an \<open>int\<close>.\<close>

definition Node_default_value :: "'o az_node \<Rightarrow> error + real" where
  "Node_default_value self =
     (if visits self = 0 then Inl ZeroDivisionError
      else Inr (subtree_value self / real (visits self)))"

definition Node_is_fully_expanded :: "'o az_node \<Rightarrow> bool" where
  "Node_is_fully_expanded self \<longleftrightarrow> length (children self) = action_space_n self"

text \<open>
  \<open>Discrete.sample(mask)\<close> of gymnasium, as the docstring of
  \<open>sample_unexplored_action\<close> quotes it: an action whose mask entry is 1, and
  \<open>space.start\<close> (0) when there is none. The random choice among the valid actions is
  the draw \<open>u\<close>, reduced to an index.
\<close>

definition Discrete_sample :: "nat \<Rightarrow> nat list \<Rightarrow> nat \<Rightarrow> action" where
  "Discrete_sample n msk u =
     (let valid = filter (\<lambda>i. msk ! i = 1) [0..<n]
      in if valid \<noteq> [] then valid ! (u mod length valid) else 0)"

text \<open>The loop \<open>for action in self.children: mask[action] = 0\<close>.\<close>

fun clear_mask :: "action list \<Rightarrow> nat list \<Rightarrow> error + nat list" where
  "clear_mask [] msk = Inr msk"
| "clear_mask (a # as) msk =
     (if a < length msk then clear_mask as (msk[a := 0]) else Inl IndexError)"

definition Node_sample_unexplored_action :: "'o az_node \<Rightarrow> nat \<Rightarrow> error + action" where
  "Node_sample_unexplored_action self u =
     (case clear_mask (map fst (children self)) (replicate (action_space_n self) 1) of
        Inl e \<Rightarrow> Inl e
      | Inr msk \<Rightarrow> Inr (Discrete_sample (action_space_n self) msk u))"

subsection \<open>class UCB\<close>

text \<open>
  \<open>max(iterable, key=f)\<close>: the key of every item is computed in iteration order, and
  the running maximum is replaced only by a strictly greater key.
\<close>

fun max_loop :: "('a \<Rightarrow> error + real) \<Rightarrow> 'a list \<Rightarrow> 'a \<Rightarrow> real \<Rightarrow> error + 'a" where
  "max_loop f [] best bv = Inr best"
| "max_loop f (y # ys) best bv =
     (case f y of
        Inl e \<Rightarrow> Inl e
      | Inr v \<Rightarrow> if v > bv then max_loop f ys y v else max_loop f ys best bv)"

definition py_max :: "('a \<Rightarrow> error + real) \<Rightarrow> 'a list \<Rightarrow> error + 'a" where
  "py_max f xs =
     (case xs of
        [] \<Rightarrow> Inl ValueError
      | x # ys \<Rightarrow> (case f x of Inl e \<Rightarrow> Inl e | Inr v \<Rightarrow> max_loop f ys x v))"

text \<open>
  \<open>ucb\<close>: \<open>child.default_value() + self.c * (node.visits / child.visits) ** 0.5\<close>.
  The action comes from the keys of \<open>node.children\<close>.
\<close>

definition UCB_ucb :: "real \<Rightarrow> 'o az_node list \<Rightarrow> ref \<Rightarrow> action \<Rightarrow> error + real" where
  "UCB_ucb c ns node a =
     (case map_of (children (ns ! node)) a of
        None \<Rightarrow> Inl KeyError
      | Some child \<Rightarrow>
          (case Node_default_value (ns ! child) of
             Inl e \<Rightarrow> Inl e
           | Inr q \<Rightarrow>
               Inr (q + c * sqrt (real (visits (ns ! node)) / real (visits (ns ! child))))))"

definition UCB_call :: "real \<Rightarrow> 'o az_node list \<Rightarrow> ref \<Rightarrow> error + action option" where
  "UCB_call c ns node =
     (if \<not> Node_is_fully_expanded (ns ! node) then Inr None
      else (case py_max (UCB_ucb c ns node) (map fst (children (ns ! node))) of
              Inl e \<Rightarrow> Inl e
            | Inr a \<Rightarrow> Inr (Some a)))"

subsection \<open>Example trees\<close>

text \<open>
  A root with two actions, action 1 expanded before action 0, and two children with
  the same statistics.
\<close>

definition tie_tree :: "unit az_node list" where
  "tie_tree =
     [(Node_init None 0 2 None False)\<lparr>children := [(1, 1), (0, 2)], visits := 3\<rparr>,
      Node_init (Some 0) 0 2 None False,
      Node_init (Some 0) 0 2 None False]"

text \<open>A root with a single action, already expanded.\<close>

definition full_tree :: "unit az_node list" where
  "full_tree =
     [(Node_init None 0 1 None False)\<lparr>children := [(0, 1)], visits := 2\<rparr>,
      Node_init (Some 0) 0 1 None True]"

definition unvisited :: "unit az_node" where
  "unvisited = (Node_init None 0 2 None False)\<lparr>visits := 0, subtree_value := 1\<rparr>"

section \<open>mcts.py\<close>

subsection \<open>The node module\<close>

text \<open>
  Modelled from the spec: the class \<open>Node\<close> that \<open>mcts.py\<close> imports from the module
  \<open>node\<close>, which is not among the sources. Its attributes are those of the spec's data
  model; \<open>env\<close> holds the address of the node's environment snapshot.
\<close>

record 'o node =
  parent :: "ref option"
  children :: "(action \<times> ref) list"
  action_space_n :: nat
  reward :: real
  observation :: "'o option"
  terminal :: bool
  visits :: int
  subtree_sum :: real
  value_evaluation :: real
  env :: "ref option"

text \<open>
  Modelled from the spec: the constructor of the missing class, called as
  \<open>Node(env=, parent=, reward=, action_space=, terminal=, observation=)\<close>; a new node
  has \<open>visits = 0\<close>, \<open>subtree_sum = 0\<close> and no children.
\<close>

definition node_new ::
  "ref option \<Rightarrow> ref option \<Rightarrow> real \<Rightarrow> nat \<Rightarrow> bool \<Rightarrow> 'o option \<Rightarrow> 'o node" where
  "node_new e p r n t obs =
     \<lparr>parent = p, children = [], action_space_n = n, reward = r, observation = obs,
      terminal = t, visits = 0, subtree_sum = 0, value_evaluation = 0, env = e\<rparr>"

text \<open>Modelled from the spec: \<open>is_terminal()\<close> of the missing class, the terminal flag.\<close>

definition is_terminal :: "'o node \<Rightarrow> bool" where
  "is_terminal self = terminal self"

text \<open>
  Modelled from the spec: \<open>step(action)\<close> of the missing class returns the child for the
  action, fails with \<open>UnexpandedAction\<close> if it is not in children, and mutates nothing.
\<close>

definition step :: "'o node list \<Rightarrow> ref \<Rightarrow> action \<Rightarrow> error + ref" where
  "step ns self a =
     (case map_of (children (ns ! self)) a of
        None \<Rightarrow> Inl UnexpandedAction
      | Some child \<Rightarrow> Inr child)"

text \<open>Modelled from the spec: \<open>is_fully_expanded()\<close> of the missing class, \<open>|children| == A\<close>.\<close>

definition is_fully_expanded :: "'o node \<Rightarrow> bool" where
  "is_fully_expanded self \<longleftrightarrow> length (children self) = action_space_n self"

text \<open>
  Modelled from the spec: \<open>sample_unexplored_action()\<close> of the missing class picks one
  action index in \<open>[0, A)\<close> that is not in children, and fails with \<open>FullyExpanded\<close> if
  there is none. The random choice is the draw \<open>u\<close>, reduced to an index.
\<close>

definition sample_unexplored_action :: "'o node \<Rightarrow> nat \<Rightarrow> error + action" where
  "sample_unexplored_action self u =
     (let unexplored = filter (\<lambda>a. a \<notin> fst ` set (children self)) [0..<action_space_n self]
      in if unexplored = [] then Inl FullyExpanded
         else Inr (unexplored ! (u mod length unexplored)))"

text \<open>
  Modelled from the spec: \<open>default_value()\<close> of the missing class returns
  \<open>subtree_sum / visits\<close>, and 0 if \<open>visits == 0\<close>.
\<close>

definition default_value :: "'o node \<Rightarrow> real" where
  "default_value self =
     (if visits self = 0 then 0 else subtree_sum self / real_of_int (visits self))"

subsection \<open>The environment and the program state\<close>

text \<open>
  A \<open>gym.Env\<close> object is a value of type \<open>'e\<close> at an address of the environment store:
  \<open>env.step(action)\<close> replaces the value at that address and returns
  \<open>(observation, reward, terminated, truncated)\<close>, and \<open>copy.deepcopy(env)\<close> puts the
  same value at a fresh address. \<open>env_n\<close> is \<open>env.action_space.n\<close>. The numbers drawn
  from the random generators are the sequence \<open>draw\<close>, of which \<open>tick\<close> counts how many
  have been consumed.
\<close>

record ('e, 'o) gym =
  env_step :: "'e \<Rightarrow> action \<Rightarrow> 'e \<times> 'o \<times> real \<times> bool \<times> bool"
  env_n :: "'e \<Rightarrow> nat"
  draw :: "nat \<Rightarrow> nat"

record ('e, 'o) state =
  nodes :: "'o node list"
  envs :: "'e list"
  tick :: nat

definition deepcopy :: "('e, 'o) state \<Rightarrow> ref option \<Rightarrow> ref option \<times> ('e, 'o) state" where
  "deepcopy s r =
     (case r of
        None \<Rightarrow> (None, s)
      | Some e \<Rightarrow> (Some (length (envs s)), s\<lparr>envs := envs s @ [envs s ! e]\<rparr>))"

definition update_node :: "ref \<Rightarrow> ('o node \<Rightarrow> 'o node) \<Rightarrow> ('e, 'o) state \<Rightarrow> ('e, 'o) state" where
  "update_node r f s = s\<lparr>nodes := (nodes s)[r := f (nodes s ! r)]\<rparr>"

subsection \<open>class MCTS and class RandomRolloutMCTS\<close>

text \<open>
  \<open>rollout_budget\<close> is \<open>None\<close> for the base class, whose \<open>value_function\<close> returns 0,
  and the budget of a \<open>RandomRolloutMCTS\<close>. An expansion policy maps a node and a draw
  to an action; \<open>None\<close> stands for the expansion of all children.
\<close>

record 'o MCTS =
  selection_policy :: "'o node list \<Rightarrow> ref \<Rightarrow> action option"
  expansion_policy :: "('o node list \<Rightarrow> ref \<Rightarrow> nat \<Rightarrow> error + action) option"
  discount_factor :: real
  rollout_budget :: "nat option"

definition DefaultExpansionPolicy :: "'o node list \<Rightarrow> ref \<Rightarrow> nat \<Rightarrow> error + action" where
  "DefaultExpansionPolicy ns node u = sample_unexplored_action (ns ! node) u"

text \<open>\<open>backup\<close>: the loop \<open>while node is not None\<close> over the parent links.\<close>

partial_function (option) backup_loop ::
  "real \<Rightarrow> int \<Rightarrow> 'o node list \<Rightarrow> ref option \<Rightarrow> real \<Rightarrow> 'o node list option" where
  "backup_loop \<gamma> new_visits ns node cum_reward =
     (case node of
        None \<Rightarrow> Some ns
      | Some r \<Rightarrow>
          (let cum = cum_reward * \<gamma> + reward (ns ! r);
               ns' = ns[r := (ns ! r)\<lparr>subtree_sum := subtree_sum (ns ! r) + cum,
                                      visits := visits (ns ! r) + new_visits\<rparr>]
           in backup_loop \<gamma> new_visits ns' (parent (ns ! r)) cum))"

declare backup_loop.simps [code]

definition backup ::
  "'o MCTS \<Rightarrow> ('e, 'o) state \<Rightarrow> ref \<Rightarrow> real \<Rightarrow> int \<Rightarrow> ('e, 'o) state option" where
  "backup self s start_node v new_visits =
     map_option (\<lambda>ns. s\<lparr>nodes := ns\<rparr>)
       (backup_loop (discount_factor self) new_visits (nodes s) (Some start_node) v)"

text \<open>
  \<open>expand\<close>: the last unexpanded action takes the node's environment and clears the
  node's reference, any other action steps a deep copy.
\<close>

definition expand ::
  "('e, 'o) gym \<Rightarrow> ('e, 'o) state \<Rightarrow> ref \<Rightarrow> action \<Rightarrow> error + (ref \<times> ('e, 'o) state)" where
  "expand g s node a =
     (let nd = nodes s ! node;
          (env_ref, s1) =
            (if int (length (children nd)) = int (action_space_n nd) - 1
             then (env nd, update_node node (\<lambda>n. n\<lparr>env := None\<rparr>) s)
             else deepcopy s (env nd))
      in case env_ref of
           None \<Rightarrow> Inl AssertionError
         | Some e \<Rightarrow>
             (let (st, obs, r, terminated, truncated) = env_step g (envs s1 ! e) a;
                  s2 = s1\<lparr>envs := (envs s1)[e := st]\<rparr>;
                  new_child = length (nodes s2);
                  s3 = s2\<lparr>nodes := nodes s2 @
                         [node_new (Some e) (Some node) r (action_space_n nd)
                            (terminated \<or> truncated) (if terminated then None else Some obs)]\<rparr>
              in Inr (new_child,
                      update_node node
                        (\<lambda>n. n\<lparr>children := AList.update a new_child (children n)\<rparr>) s3)))"

text \<open>
  The rollout of \<open>RandomRolloutMCTS.value_function\<close>, on its own local copy of the
  environment: at most \<open>rollout_budget\<close> steps with \<open>env.action_space.sample()\<close>.
\<close>

fun rollout :: "('e, 'o) gym \<Rightarrow> nat \<Rightarrow> 'e \<Rightarrow> nat \<Rightarrow> real \<Rightarrow> real \<times> nat" where
  "rollout g 0 e t accumulated_reward = (accumulated_reward, t)"
| "rollout g (Suc k) e t accumulated_reward =
     (let (e', obs, r, terminated, truncated) = env_step g e (draw g t mod env_n g e);
          acc = accumulated_reward + r
      in if terminated \<or> truncated then (acc, Suc t) else rollout g k e' (Suc t) acc)"

definition value_function ::
  "'o MCTS \<Rightarrow> ('e, 'o) gym \<Rightarrow> ('e, 'o) state \<Rightarrow> ref \<Rightarrow> error + (real \<times> ('e, 'o) state)" where
  "value_function self g s node =
     (case rollout_budget self of
        None \<Rightarrow> Inr (0, s)
      | Some k \<Rightarrow>
          if is_terminal (nodes s ! node) then Inr (0, s)
          else (case env (nodes s ! node) of
                  None \<Rightarrow> Inl AssertionError
                | Some e \<Rightarrow>
                    (let (acc, t) = rollout g k (envs s ! e) (tick s) 0
                     in Inr (acc, s\<lparr>tick := t\<rparr>))))"

partial_function (option) select_node_to_expand ::
  "'o MCTS \<Rightarrow> 'o node list \<Rightarrow> ref \<Rightarrow> (error + ref) option" where
  "select_node_to_expand self ns node =
     (if is_terminal (ns ! node) then Some (Inr node)
      else (case selection_policy self ns node of
              None \<Rightarrow> Some (Inr node)
            | Some a \<Rightarrow>
                (case step ns node a of
                   Inl e \<Rightarrow> Some (Inl e)
                 | Inr child \<Rightarrow> select_node_to_expand self ns child)))"

declare select_node_to_expand.simps [code]

definition handle_single ::
  "'o MCTS \<Rightarrow> ('e, 'o) gym \<Rightarrow> ('e, 'o) state \<Rightarrow> ref \<Rightarrow> action \<Rightarrow> (error + ('e, 'o) state) option" where
  "handle_single self g s node a =
     (case expand g s node a of
        Inl e \<Rightarrow> Some (Inl e)
      | Inr (eval_node, s1) \<Rightarrow>
          (case value_function self g s1 eval_node of
             Inl e \<Rightarrow> Some (Inl e)
           | Inr (v, s2) \<Rightarrow>
               map_option Inr
                 (backup self (update_node eval_node (\<lambda>n. n\<lparr>value_evaluation := v\<rparr>) s2)
                    eval_node v 1)))"

fun handle_all_loop ::
  "'o MCTS \<Rightarrow> ('e, 'o) gym \<Rightarrow> ref \<Rightarrow> action list \<Rightarrow> ('e, 'o) state \<Rightarrow> (error + ('e, 'o) state) option" where
  "handle_all_loop self g node [] s = Some (Inr s)"
| "handle_all_loop self g node (a # as) s =
     (case handle_single self g s node a of
        None \<Rightarrow> None
      | Some (Inl e) \<Rightarrow> Some (Inl e)
      | Some (Inr s') \<Rightarrow> handle_all_loop self g node as s')"

definition handle_all ::
  "'o MCTS \<Rightarrow> ('e, 'o) gym \<Rightarrow> ('e, 'o) state \<Rightarrow> ref \<Rightarrow> (error + ('e, 'o) state) option" where
  "handle_all self g s node =
     handle_all_loop self g node [0..<action_space_n (nodes s ! node)] s"

definition handle_selected_node ::
  "'o MCTS \<Rightarrow> ('e, 'o) gym \<Rightarrow> ('e, 'o) state \<Rightarrow> ref \<Rightarrow> (error + ('e, 'o) state) option" where
  "handle_selected_node self g s node =
     (case expansion_policy self of
        None \<Rightarrow> handle_all self g s node
      | Some policy \<Rightarrow>
          (case policy (nodes s) node (draw g (tick s)) of
             Inl e \<Rightarrow> Some (Inl e)
           | Inr a \<Rightarrow> handle_single self g (s\<lparr>tick := Suc (tick s)\<rparr>) node a))"

text \<open>The body of the loop of \<open>build_tree\<close>, and the loop.\<close>

definition build_tree_body ::
  "'o MCTS \<Rightarrow> ('e, 'o) gym \<Rightarrow> ref \<Rightarrow> ('e, 'o) state \<Rightarrow> (error + ('e, 'o) state) option" where
  "build_tree_body self g from_node s =
     (case select_node_to_expand self (nodes s) from_node of
        None \<Rightarrow> None
      | Some (Inl e) \<Rightarrow> Some (Inl e)
      | Some (Inr selected) \<Rightarrow>
          if is_terminal (nodes s ! selected)
          then map_option Inr
                 (backup self (update_node selected (\<lambda>n. n\<lparr>value_evaluation := 0\<rparr>) s)
                    selected 0 1)
          else handle_selected_node self g s selected)"

partial_function (option) build_tree ::
  "'o MCTS \<Rightarrow> ('e, 'o) gym \<Rightarrow> ref \<Rightarrow> int \<Rightarrow> ('e, 'o) state \<Rightarrow> (error + ('e, 'o) state) option" where
  "build_tree self g from_node iterations s =
     (if visits (nodes s ! from_node) < iterations
      then (case build_tree_body self g from_node s of
              None \<Rightarrow> None
            | Some (Inl e) \<Rightarrow> Some (Inl e)
            | Some (Inr s') \<Rightarrow> build_tree self g from_node iterations s')
      else Some (Inr s))"

declare build_tree.simps [code]

text \<open>
  \<open>search\<close>: the root is built on a deep copy of the caller's environment, evaluated and
  backed up, and the tree is grown from it. The result is the root's address with the
  final state.
\<close>

definition search ::
  "'o MCTS \<Rightarrow> ('e, 'o) gym \<Rightarrow> ('e, 'o) state \<Rightarrow> ref \<Rightarrow> int \<Rightarrow> 'o \<Rightarrow> real \<Rightarrow>
     (error + (ref \<times> ('e, 'o) state)) option" where
  "search self g s env_ref iterations obs r =
     (let (e, s1) = deepcopy s (Some env_ref);
          root_node = length (nodes s1);
          s2 = s1\<lparr>nodes := nodes s1 @
                 [node_new e None r (env_n g (envs s ! env_ref)) False (Some obs)]\<rparr>
      in case value_function self g s2 root_node of
           Inl err \<Rightarrow> Some (Inl err)
         | Inr (v, s3) \<Rightarrow>
             (case backup self (update_node root_node (\<lambda>n. n\<lparr>value_evaluation := v\<rparr>) s3)
                     root_node v 1 of
                None \<Rightarrow> None
              | Some s4 \<Rightarrow>
                  map_option (map_sum id (Pair root_node))
                    (build_tree self g root_node iterations s4)))"

section \<open>policies/policies.py\<close>

text \<open>
  A \<open>PolicyDistribution\<close> has a temperature and the abstract method \<open>_probs\<close>. A
  \<open>torch.distributions.Categorical\<close> is the list of its probabilities:
  \<open>Categorical(probs=p)\<close> normalises \<open>p\<close> by its sum, \<open>Categorical(logits=l)\<close> is the
  softmax of \<open>l\<close>. The tensor arithmetic is idealised in the reals, and the model agrees
  with the source where no division is by zero: at \<open>visits == 1\<close> the source's \<open>self_prob\<close>
  divides by zero, giving \<open>inf\<close> or \<open>nan\<close>, on which \<open>Categorical\<close> raises \<open>ValueError\<close>,
  whereas the quotient below is 0 there. The leaf branch of \<open>softmaxed_distribution\<close> never
  reaches \<open>self_prob\<close>.
\<close>

record 'o PolicyDistribution =
  temperature :: "real option"
  probs_fn :: "'o node \<Rightarrow> real list"

definition Categorical_probs :: "real list \<Rightarrow> real list" where
  "Categorical_probs p = map (\<lambda>x. x / sum_list p) p"

definition Categorical_logits :: "real list \<Rightarrow> real list" where
  "Categorical_logits l = map (\<lambda>x. exp x / sum_list (map exp l)) l"

definition self_prob :: "'o node \<Rightarrow> real list \<Rightarrow> real" where
  "self_prob node probs = sum_list probs / real_of_int (visits node - 1)"

definition add_self_to_probs :: "'o node \<Rightarrow> real list \<Rightarrow> real list" where
  "add_self_to_probs node probs = probs @ [self_prob node probs]"

definition softmaxed_distribution ::
  "'o PolicyDistribution \<Rightarrow> 'o node \<Rightarrow> bool \<Rightarrow> real list" where
  "softmaxed_distribution self node include_self =
     (if include_self \<and> length (children node) = 0
      then (let probs = replicate (action_space_n node + (if include_self then 1 else 0)) 0;
                probs = probs[length probs - 1 := 1]
            in Categorical_probs probs)
      else (let probs = probs_fn self node
            in case temperature self of
                 None \<Rightarrow>
                   Categorical_probs
                     (if include_self then add_self_to_probs node probs else probs)
               | Some T \<Rightarrow>
                   if T = 0
                   then (let max_logits = Max (set probs);
                             probs = map (\<lambda>p. if p = max_logits then 1 else 0) probs
                         in Categorical_probs
                              (if include_self then add_self_to_probs node probs else probs))
                   else (let dist = Categorical_logits (map (\<lambda>p. p / T) probs)
                         in if include_self
                            then Categorical_probs (add_self_to_probs node dist)
                            else dist)))"

section \<open>Notions used to state the properties\<close>

text \<open>
  The path of parent links from a node to the root, both included, in a node store.
\<close>

inductive parent_chain :: "'o node list \<Rightarrow> ref \<Rightarrow> ref list \<Rightarrow> bool" where
  at_root: "r < length ns \<Longrightarrow> parent (ns ! r) = None \<Longrightarrow> parent_chain ns r [r]"
| at_child: "r < length ns \<Longrightarrow> parent (ns ! r) = Some p \<Longrightarrow> parent_chain ns p path \<Longrightarrow>
     parent_chain ns r (r # path)"

code_pred parent_chain .

text \<open>
  The backup rule as the specification words it: starting from \<open>g = v\<close>, each node of
  the path sets \<open>g = \<gamma> \<cdot> g + reward\<close>. \<open>returns \<gamma> v rs\<close> lists the successive values of
  \<open>g\<close> for the rewards \<open>rs\<close> of the path.
\<close>

fun returns :: "real \<Rightarrow> real \<Rightarrow> real list \<Rightarrow> real list" where
  "returns \<gamma> g [] = []"
| "returns \<gamma> g (r # rs) = (\<gamma> * g + r) # returns \<gamma> (\<gamma> * g + r) rs"

text \<open>One step of the backup at a node: \<open>subtree_sum += g; visits += k\<close>.\<close>

definition bump :: "real \<Rightarrow> int \<Rightarrow> 'o node \<Rightarrow> 'o node" where
  "bump g k n = n\<lparr>subtree_sum := subtree_sum n + g, visits := visits n + k\<rparr>"

text \<open>Two node stores with the same parent links and rewards.\<close>

definition same_links :: "'o node list \<Rightarrow> 'o node list \<Rightarrow> bool" where
  "same_links ns ns0 \<longleftrightarrow>
     length ns = length ns0 \<and>
     (\<forall>q < length ns0. parent (ns ! q) = parent (ns0 ! q) \<and> reward (ns ! q) = reward (ns0 ! q))"

text \<open>
  Two states that differ at most in the statistics (\<open>visits\<close>, \<open>subtree_sum\<close>,
  \<open>value_evaluation\<close>) of their nodes and in the number of draws consumed.
\<close>

definition same_tree :: "('e, 'o) state \<Rightarrow> ('e, 'o) state \<Rightarrow> bool" where
  "same_tree s s' \<longleftrightarrow>
     envs s' = envs s \<and> length (nodes s') = length (nodes s) \<and>
     (\<forall>q < length (nodes s).
        parent (nodes s' ! q) = parent (nodes s ! q) \<and>
        children (nodes s' ! q) = children (nodes s ! q) \<and>
        action_space_n (nodes s' ! q) = action_space_n (nodes s ! q) \<and>
        reward (nodes s' ! q) = reward (nodes s ! q) \<and>
        terminal (nodes s' ! q) = terminal (nodes s ! q) \<and>
        env (nodes s' ! q) = env (nodes s ! q))"

text \<open>
  The shape of a tree rooted at address \<open>rt\<close> whose environments were allocated at
  addresses from \<open>base\<close> on: the root has no parent, every later node has its parent
  between the root and itself, children come after their parent, and the environment
  references are allocated ones.
\<close>

definition tree_ok :: "ref \<Rightarrow> nat \<Rightarrow> ('e, 'o) state \<Rightarrow> bool" where
  "tree_ok rt base s \<longleftrightarrow>
     rt < length (nodes s) \<and> parent (nodes s ! rt) = None \<and>
     (\<forall>r. rt < r \<and> r < length (nodes s) \<longrightarrow>
        (\<exists>p. parent (nodes s ! r) = Some p \<and> rt \<le> p \<and> p < r)) \<and>
     (\<forall>r. rt \<le> r \<and> r < length (nodes s) \<longrightarrow>
        (\<forall>c \<in> snd ` set (children (nodes s ! r)). r < c \<and> c < length (nodes s)) \<and>
        (\<forall>e. env (nodes s ! r) = Some e \<longrightarrow> base \<le> e \<and> e < length (envs s)))"

text \<open>
  What single-child expansion maintains: the keys of every \<open>children\<close> dict are
  distinct actions of the action space, which is not empty, and a node gives its
  environment away only when it becomes fully expanded.
\<close>

definition expandable :: "ref \<Rightarrow> ('e, 'o) state \<Rightarrow> bool" where
  "expandable rt s \<longleftrightarrow>
     (\<forall>r. rt \<le> r \<and> r < length (nodes s) \<longrightarrow>
        0 < action_space_n (nodes s ! r) \<and>
        distinct (map fst (children (nodes s ! r))) \<and>
        (\<forall>a \<in> fst ` set (children (nodes s ! r)). a < action_space_n (nodes s ! r)) \<and>
        (env (nodes s ! r) = None \<longrightarrow> is_fully_expanded (nodes s ! r)))"

text \<open>
  The contract of a selection policy: "expand here" exactly on the nodes that are not
  fully expanded, and otherwise an action that has a child.
\<close>

definition policy_ok :: "('o node list \<Rightarrow> ref \<Rightarrow> action option) \<Rightarrow> bool" where
  "policy_ok sel \<longleftrightarrow>
     (\<forall>ns r. r < length ns \<and> 0 < action_space_n (ns ! r) \<longrightarrow>
        (if is_fully_expanded (ns ! r)
         then \<exists>a. sel ns r = Some a \<and> a \<in> fst ` set (children (ns ! r))
         else sel ns r = None))"

subsection \<open>Example searches\<close>

text \<open>A selection policy that descends into the first child of a fully expanded node.\<close>

definition first_child_policy :: "'o node list \<Rightarrow> ref \<Rightarrow> action option" where
  "first_child_policy ns r =
     (if is_fully_expanded (ns ! r)
      then (case children (ns ! r) of [] \<Rightarrow> None | (a, c) # _ \<Rightarrow> Some a)
      else None)"

text \<open>
  An environment whose state is a position: an action moves one or two places forward,
  positions from 3 on are terminal, and each step is rewarded 1.
\<close>

definition walk_gym :: "(nat, nat) gym" where
  "walk_gym =
     \<lparr>env_step = (\<lambda>e a. (e + 1 + a, e + 1 + a, 1, 3 \<le> e + 1 + a, False)),
      env_n = (\<lambda>e. 2), draw = (\<lambda>k. k)\<rparr>"

definition zero_mcts :: "nat MCTS" where
  "zero_mcts =
     \<lparr>selection_policy = first_child_policy, expansion_policy = Some DefaultExpansionPolicy,
      discount_factor = 1 / 2, rollout_budget = None\<rparr>"

definition start_state :: "(nat, nat) state" where
  "start_state = \<lparr>nodes = [], envs = [0], tick = 0\<rparr>"

text \<open>The walk environment at the terminal position 3, and no tree yet.\<close>

definition done_state :: "(nat, nat) state" where
  "done_state = \<lparr>nodes = [], envs = [3], tick = 0\<rparr>"

text \<open>A chain of three nodes, node 2 below node 1 below the root 0, with rewards 3, 2, 1.\<close>

definition chain_state :: "(nat, nat) state" where
  "chain_state =
     \<lparr>nodes =
        [(node_new None None 3 1 False None)\<lparr>children := [(0, 1)]\<rparr>,
         (node_new None (Some 0) 2 1 False None)\<lparr>children := [(0, 2)]\<rparr>,
         node_new (Some 0) (Some 1) 1 1 False None],
      envs = [2], tick = 0\<rparr>"

text \<open>The root that \<open>search\<close> builds for an incoming reward of \<open>-1\<close>, before its backup.\<close>

definition debt_state :: "(nat, nat) state" where
  "debt_state = \<lparr>nodes = [node_new (Some 1) None (- 1) 2 False (Some 0)], envs = [0, 0], tick = 0\<rparr>"

text \<open>A terminal node with reward 1, visited once, taken as the root of a tree.\<close>

definition terminal_state :: "(nat, nat) state" where
  "terminal_state =
     \<lparr>nodes = [(node_new (Some 0) None 1 2 True None)\<lparr>visits := 1, subtree_sum := 1\<rparr>],
      envs = [3], tick = 0\<rparr>"

subsection \<open>The UCB score as the specification writes it\<close>

text \<open>
  \<open>score(a) = child.default_value() + c \<cdot> sqrt(parent.visits / child.visits)\<close>, for an
  action \<open>a\<close> that has a child in the tree of \<open>alphazero.py\<close>.
\<close>

definition ucb_score :: "real \<Rightarrow> 'o az_node list \<Rightarrow> ref \<Rightarrow> action \<Rightarrow> real" where
  "ucb_score c ns node a =
     (let child = ns ! the (map_of (az_node.children (ns ! node)) a)
      in az_node.subtree_value child / real (az_node.visits child)
         + c * sqrt (real (az_node.visits (ns ! node)) / real (az_node.visits child)))"

text \<open>
  What a step of the search may do to a state: nodes and environments are only added,
  no node loses visits, and the environments below \<open>base\<close> keep their value.
\<close>

definition grows :: "nat \<Rightarrow> ('e, 'o) state \<Rightarrow> ('e, 'o) state \<Rightarrow> bool" where
  "grows base s s' \<longleftrightarrow>
     length (nodes s) \<le> length (nodes s') \<and> length (envs s) \<le> length (envs s') \<and>
     (\<forall>q < length (nodes s). visits (nodes s ! q) \<le> visits (nodes s' ! q)) \<and>
     (\<forall>i < base. envs s' ! i = envs s ! i)"

text \<open>No node loses subtree sum.\<close>

definition gains :: "('e, 'o) state \<Rightarrow> ('e, 'o) state \<Rightarrow> bool" where
  "gains s s' \<longleftrightarrow>
     (\<forall>q < length (nodes s). subtree_sum (nodes s ! q) \<le> subtree_sum (nodes s' ! q))"

text \<open>
  Rewards that are never negative: a discount factor that is not negative and an
  environment that returns no negative reward; and the nodes from \<open>rt\<close> on.
\<close>

definition nonneg_gym :: "'o MCTS \<Rightarrow> ('e, 'o) gym \<Rightarrow> bool" where
  "nonneg_gym self g \<longleftrightarrow>
     0 \<le> discount_factor self \<and> (\<forall>e a. 0 \<le> fst (snd (snd (env_step g e a))))"

definition nonneg_rewards :: "ref \<Rightarrow> ('e, 'o) state \<Rightarrow> bool" where
  "nonneg_rewards rt s \<longleftrightarrow>
     (\<forall>q. rt \<le> q \<and> q < length (nodes s) \<longrightarrow> 0 \<le> reward (nodes s ! q))"

text \<open>
  One or more steps of a search rooted at \<open>rt\<close>: the tree keeps its shape, the state
  grows, and where no reward is negative no subtree sum shrinks.
\<close>

definition advances ::
  "ref \<Rightarrow> nat \<Rightarrow> 'o MCTS \<Rightarrow> ('e, 'o) gym \<Rightarrow> ('e, 'o) state \<Rightarrow> ('e, 'o) state \<Rightarrow> bool" where
  "advances rt base self g s s' \<longleftrightarrow>
     tree_ok rt base s' \<and> grows base s s' \<and>
     (nonneg_gym self g \<and> nonneg_rewards rt s \<longrightarrow> nonneg_rewards rt s' \<and> gains s s')"

section \<open>Properties of alphazero.py\<close>

subsection \<open>Python's max\<close>

lemma max_loop_first:
  assumes "\<forall>x \<in> set (b # ys). f x = Inr (g x)"
  shows "\<exists>a pre post. max_loop f ys b (g b) = Inr a \<and> b # ys = pre @ a # post \<and>
           (\<forall>x \<in> set pre. g x < g a) \<and> (\<forall>x \<in> set (b # ys). g x \<le> g a)"
  using assms
proof (induction ys arbitrary: b)
  case Nil
  have "[b] = [] @ b # []" by simp
  then show ?case by (metis empty_iff list.set(1) max_loop.simps(1) order_refl set_ConsD)
next
  case (Cons y ys)
  have fy: "f y = Inr (g y)" using Cons.prems by simp
  show ?case
  proof (cases "g b < g y")
    case True
    have "\<forall>x \<in> set (y # ys). f x = Inr (g x)" using Cons.prems by simp
    from Cons.IH[OF this] obtain a pre post where
      r: "max_loop f ys y (g y) = Inr a" and d: "y # ys = pre @ a # post"
      and s: "\<forall>x \<in> set pre. g x < g a" and m: "\<forall>x \<in> set (y # ys). g x \<le> g a"
      by blast
    have gy: "g y \<le> g a" using m by simp
    have "max_loop f (y # ys) b (g b) = Inr a" using True fy r by simp
    moreover have "b # y # ys = (b # pre) @ a # post" using d by simp
    moreover have "\<forall>x \<in> set (b # pre). g x < g a" using s True gy by auto
    moreover have "\<forall>x \<in> set (b # y # ys). g x \<le> g a" using m True gy by auto
    ultimately show ?thesis by blast
  next
    case False
    have "\<forall>x \<in> set (b # ys). f x = Inr (g x)" using Cons.prems by simp
    from Cons.IH[OF this] obtain a pre post where
      r: "max_loop f ys b (g b) = Inr a" and d: "b # ys = pre @ a # post"
      and s: "\<forall>x \<in> set pre. g x < g a" and m: "\<forall>x \<in> set (b # ys). g x \<le> g a"
      by blast
    have gb: "g b \<le> g a" using m by simp
    have res: "max_loop f (y # ys) b (g b) = Inr a" using False fy r by simp
    have mx: "\<forall>x \<in> set (b # y # ys). g x \<le> g a" using m False gb by auto
    show ?thesis
    proof (cases pre)
      case Nil
      then have "b # y # ys = [] @ a # (y # ys)" using d by simp
      then show ?thesis using res mx by (metis empty_iff list.set(1))
    next
      case (Cons p pre')
      then have pb: "p = b" and d': "ys = pre' @ a # post" using d by simp_all
      have "g b < g a" using s Cons pb by simp
      then have "\<forall>x \<in> set (b # y # pre'). g x < g a" using s Cons False by auto
      moreover have "b # y # ys = (b # y # pre') @ a # post" using d' by simp
      ultimately show ?thesis using res mx by blast
    qed
  qed
qed

lemma py_max_first:
  assumes "xs \<noteq> []" and "\<forall>x \<in> set xs. f x = Inr (g x)"
  shows "\<exists>a pre post. py_max f xs = Inr a \<and> xs = pre @ a # post \<and>
           (\<forall>x \<in> set pre. g x < g a) \<and> (\<forall>x \<in> set xs. g x \<le> g a)"
proof -
  obtain b ys where xs: "xs = b # ys" using assms(1) by (cases xs) auto
  have "py_max f xs = max_loop f ys b (g b)" using assms(2) xs by (simp add: py_max_def)
  then show ?thesis using max_loop_first[of b ys f g] assms(2) xs by simp
qed

subsection \<open>UCB selection\<close>

lemma UCB_ucb_defined:
  assumes "map_of (az_node.children (ns ! r)) a = Some ch" and "0 < az_node.visits (ns ! ch)"
  shows "UCB_ucb c ns r a = Inr (ucb_score c ns r a)"
  using assms by (simp add: UCB_ucb_def Node_default_value_def ucb_score_def Let_def)

text \<open>
  Claim C2, as stated, fails on ties. In \<open>tie_tree\<close> the root is fully expanded, both
  actions have the same score, and the policy returns action 1, which was expanded
  first, not the lowest action index 0.
\<close>

theorem UCB_call_counterexample:
  "Node_is_fully_expanded (tie_tree ! 0) \<and>
   UCB_ucb 1 tie_tree 0 0 = UCB_ucb 1 tie_tree 0 1 \<and>
   UCB_call 1 tie_tree 0 = Inr (Some 1)"
  by (simp add: UCB_call_def UCB_ucb_def py_max_def tie_tree_def Node_init_def
      Node_is_fully_expanded_def Node_default_value_def)

text \<open>
  Claim C2, amended. On a node that is not fully expanded the UCB policy returns
  "expand here" (\<open>None\<close>). On a fully expanded node whose children have all been visited
  it returns an action of maximal score, and among the actions of maximal score the one
  that comes first in the insertion order of the \<open>children\<close> dict: every action before
  it in that order has a strictly smaller score.
\<close>

theorem UCB_call_first_max:
  assumes "\<forall>a ch. map_of (az_node.children (ns ! r)) a = Some ch \<longrightarrow> 0 < az_node.visits (ns ! ch)"
    and "0 < az_node.action_space_n (ns ! r)"
  shows "(\<not> Node_is_fully_expanded (ns ! r) \<longrightarrow> UCB_call c ns r = Inr None) \<and>
         (Node_is_fully_expanded (ns ! r) \<longrightarrow>
            (\<exists>a pre post. UCB_call c ns r = Inr (Some a) \<and>
               map fst (az_node.children (ns ! r)) = pre @ a # post \<and>
               (\<forall>b \<in> set pre. ucb_score c ns r b < ucb_score c ns r a) \<and>
               (\<forall>b \<in> set (map fst (az_node.children (ns ! r))).
                   ucb_score c ns r b \<le> ucb_score c ns r a)))"
proof (intro conjI impI)
  assume "\<not> Node_is_fully_expanded (ns ! r)"
  then show "UCB_call c ns r = Inr None" by (simp add: UCB_call_def)
next
  assume full: "Node_is_fully_expanded (ns ! r)"
  let ?keys = "map fst (az_node.children (ns ! r))"
  have ne: "?keys \<noteq> []" using full assms(2) by (auto simp: Node_is_fully_expanded_def)
  have sc: "\<forall>a \<in> set ?keys. UCB_ucb c ns r a = Inr (ucb_score c ns r a)"
  proof
    fix a assume "a \<in> set ?keys"
    then obtain ch where ch: "map_of (az_node.children (ns ! r)) a = Some ch"
      by (metis image_set map_of_eq_None_iff not_Some_eq)
    then have "0 < az_node.visits (ns ! ch)" using assms(1) by blast
    then show "UCB_ucb c ns r a = Inr (ucb_score c ns r a)"
      using UCB_ucb_defined[OF ch] by simp
  qed
  from py_max_first[OF ne sc] obtain a pre post where
    "py_max (UCB_ucb c ns r) ?keys = Inr a" "?keys = pre @ a # post"
    "\<forall>x \<in> set pre. ucb_score c ns r x < ucb_score c ns r a"
    "\<forall>x \<in> set ?keys. ucb_score c ns r x \<le> ucb_score c ns r a"
    by blast
  then show "\<exists>a pre post. UCB_call c ns r = Inr (Some a) \<and>
               ?keys = pre @ a # post \<and>
               (\<forall>b \<in> set pre. ucb_score c ns r b < ucb_score c ns r a) \<and>
               (\<forall>b \<in> set ?keys. ucb_score c ns r b \<le> ucb_score c ns r a)"
    using full by (simp add: UCB_call_def) blast
qed

text \<open>Claim C2, amended: the theorem at the fully expanded root of \<open>tie_tree\<close>.\<close>

theorem UCB_call_first_max_witness:
  "0 < az_node.visits (tie_tree ! 1) \<and> 0 < az_node.visits (tie_tree ! 2) \<and>
   0 < az_node.action_space_n (tie_tree ! 0) \<and> Node_is_fully_expanded (tie_tree ! 0) \<and>
   (\<exists>a pre post. UCB_call 1 tie_tree 0 = Inr (Some a) \<and>
      map fst (az_node.children (tie_tree ! 0)) = pre @ a # post \<and>
      (\<forall>b \<in> set pre. ucb_score 1 tie_tree 0 b < ucb_score 1 tie_tree 0 a) \<and>
      (\<forall>b \<in> set (map fst (az_node.children (tie_tree ! 0))).
          ucb_score 1 tie_tree 0 b \<le> ucb_score 1 tie_tree 0 a))"
proof -
  have h1: "\<forall>a ch. map_of (az_node.children (tie_tree ! 0)) a = Some ch \<longrightarrow>
              0 < az_node.visits (tie_tree ! ch)"
    by (auto simp: tie_tree_def Node_init_def split: if_splits)
  have h2: "0 < az_node.action_space_n (tie_tree ! 0)" by (simp add: tie_tree_def Node_init_def)
  have h3: "Node_is_fully_expanded (tie_tree ! 0)"
    by (simp add: tie_tree_def Node_init_def Node_is_fully_expanded_def)
  have h4: "0 < az_node.visits (tie_tree ! 1) \<and> 0 < az_node.visits (tie_tree ! 2)"
    by (simp add: tie_tree_def Node_init_def)
  show ?thesis using UCB_call_first_max[OF h1 h2, of 1] h2 h3 h4 by blast
qed

subsection \<open>Node.step\<close>

text \<open>
  Claim C3, as stated, fails: \<open>step\<close> increments the visits of the child it returns. In
  \<open>full_tree\<close> the child has 1 visit before the root steps into it and 2 after.
\<close>

theorem Node_step_counterexample:
  "Node_step full_tree 0 0 = Inr (1, full_tree[1 := (full_tree ! 1)\<lparr>az_node.visits := 2\<rparr>]) \<and>
   az_node.visits (full_tree ! 1) = 1 \<and>
   az_node.visits (full_tree[1 := (full_tree ! 1)\<lparr>az_node.visits := 2\<rparr>] ! 1) = 2"
  by (simp add: Node_step_def full_tree_def Node_init_def)

text \<open>
  Claim C3, amended. \<open>step(a)\<close> fails with \<open>KeyError\<close> when \<open>a\<close> has no child, and
  otherwise returns the child stored under \<open>a\<close> after adding 1 to that child's visits;
  the child's subtree value, value evaluation and reward, and every field of every
  other node, are as before the call.
\<close>

theorem Node_step_effect:
  "(map_of (az_node.children (ns ! r)) a = None \<longrightarrow> Node_step ns r a = Inl KeyError) \<and>
   (\<forall>ch. map_of (az_node.children (ns ! r)) a = Some ch \<and> ch < length ns \<longrightarrow>
      (\<exists>ns'. Node_step ns r a = Inr (ch, ns') \<and> length ns' = length ns \<and>
         ns' ! ch = (ns ! ch)\<lparr>az_node.visits := az_node.visits (ns ! ch) + 1\<rparr> \<and>
         az_node.subtree_value (ns' ! ch) = az_node.subtree_value (ns ! ch) \<and>
         az_node.value_evaluation (ns' ! ch) = az_node.value_evaluation (ns ! ch) \<and>
         az_node.reward (ns' ! ch) = az_node.reward (ns ! ch) \<and>
         (\<forall>q < length ns. q \<noteq> ch \<longrightarrow> ns' ! q = ns ! q)))"
  by (simp add: Node_step_def)

text \<open>Claim C3, amended: the theorem at the root of \<open>full_tree\<close>, for actions 0 and 5.\<close>

theorem Node_step_effect_witness:
  "map_of (az_node.children (full_tree ! 0)) 0 = Some 1 \<and> 1 < length full_tree \<and>
   map_of (az_node.children (full_tree ! 0)) 5 = None \<and>
   Node_step full_tree 0 5 = Inl KeyError \<and>
   (\<exists>ns'. Node_step full_tree 0 0 = Inr (1, ns') \<and> az_node.visits (ns' ! 1) = 2 \<and>
      ns' ! 0 = full_tree ! 0)"
proof -
  have h: "map_of (az_node.children (full_tree ! 0)) 0 = Some 1 \<and> 1 < length full_tree"
    "map_of (az_node.children (full_tree ! 0)) 5 = None"
    by (simp_all add: full_tree_def Node_init_def)
  have v: "az_node.visits (full_tree ! 1) = 1" "length full_tree = 2"
    by (simp_all add: full_tree_def Node_init_def)
  have a: "Node_step full_tree 0 5 = Inl KeyError"
    using Node_step_effect[of full_tree 0 5] h by blast
  from Node_step_effect[of full_tree 0 0] h obtain ns' where
    "Node_step full_tree 0 0 = Inr (1, ns')"
    "ns' ! 1 = (full_tree ! 1)\<lparr>az_node.visits := az_node.visits (full_tree ! 1) + 1\<rparr>"
    "\<forall>q < length full_tree. q \<noteq> 1 \<longrightarrow> ns' ! q = full_tree ! q"
    by blast
  then have "Node_step full_tree 0 0 = Inr (1, ns') \<and> az_node.visits (ns' ! 1) = 2 \<and>
             ns' ! 0 = full_tree ! 0"
    using v h by simp
  then show ?thesis using h a by blast
qed

subsection \<open>Node.sample_unexplored_action\<close>

lemma clear_mask_result:
  "\<forall>a \<in> set as. a < length msk \<Longrightarrow>
   \<exists>m'. clear_mask as msk = Inr m' \<and> length m' = length msk \<and>
        (\<forall>i < length msk. m' ! i = (if i \<in> set as then 0 else msk ! i))"
proof (induction as arbitrary: msk)
  case Nil
  then show ?case by simp
next
  case (Cons a as)
  have "\<forall>x \<in> set as. x < length (msk[a := 0])" using Cons.prems by simp
  from Cons.IH[OF this] obtain m' where
    m: "clear_mask as (msk[a := 0]) = Inr m'" "length m' = length msk"
       "\<forall>i < length msk. m' ! i = (if i \<in> set as then 0 else msk[a := 0] ! i)"
    by auto
  have "\<forall>i < length msk. m' ! i = (if i \<in> set (a # as) then 0 else msk ! i)"
    using m(3) by (auto simp: nth_list_update)
  then show ?case using m(1,2) Cons.prems by simp
qed

lemma unexplored_filter:
  assumes "\<forall>a \<in> set (map fst (az_node.children self)). a < az_node.action_space_n self"
  shows "\<exists>msk. clear_mask (map fst (az_node.children self))
                  (replicate (az_node.action_space_n self) 1) = Inr msk \<and>
           filter (\<lambda>i. msk ! i = 1) [0..<az_node.action_space_n self] =
           filter (\<lambda>i. i \<notin> fst ` set (az_node.children self)) [0..<az_node.action_space_n self]"
proof -
  let ?n = "az_node.action_space_n self"
  let ?ks = "map fst (az_node.children self)"
  have "\<forall>a \<in> set ?ks. a < length (replicate ?n (1::nat))"
    using assms by simp
  from clear_mask_result[OF this] obtain msk where
    m: "clear_mask ?ks (replicate ?n 1) = Inr msk"
       "\<forall>i < ?n. msk ! i = (if i \<in> set ?ks then 0 else replicate ?n (1::nat) ! i)"
    by auto
  have "filter (\<lambda>i. msk ! i = 1) [0..<?n] =
        filter (\<lambda>i. i \<notin> fst ` set (az_node.children self)) [0..<?n]"
    by (rule filter_cong) (use m(2) in auto)
  then show ?thesis using m(1) by blast
qed

lemma keys_cover:
  assumes "distinct ks" and "\<forall>a \<in> set ks. a < n"
  shows "length ks = n \<longleftrightarrow> (\<forall>i < n. i \<in> set ks)"
proof
  assume l: "length ks = n"
  have "set ks \<subseteq> {..<n}" using assms(2) by auto
  moreover have "card (set ks) = card {..<n}" using assms(1) l by (simp add: distinct_card)
  ultimately have "set ks = {..<n}" by (simp add: card_subset_eq)
  then show "\<forall>i < n. i \<in> set ks" by auto
next
  assume "\<forall>i < n. i \<in> set ks"
  then have "set ks = {..<n}" using assms(2) by auto
  then show "length ks = n" using assms(1) by (metis card_lessThan distinct_card)
qed

lemma card_mod_class:
  assumes "i < k"
  shows "card {u. u < m * k \<and> u mod k = i} = m"
proof (induction m)
  case 0
  then show ?case by simp
next
  case (Suc m)
  let ?S = "{u. u < m * k \<and> u mod k = i}"
  have fin: "finite ?S" by simp
  have new: "m * k + i \<notin> ?S" by simp
  have "{u. u < Suc m * k \<and> u mod k = i} = insert (m * k + i) ?S"
  proof (intro set_eqI iffI)
    fix u assume "u \<in> {u. u < Suc m * k \<and> u mod k = i}"
    then have u: "u < k + m * k" "u mod k = i" by simp_all
    show "u \<in> insert (m * k + i) ?S"
    proof (cases "u < m * k")
      case True
      then show ?thesis using u by simp
    next
      case False
      then have "k * m \<le> u" "u < k * Suc m" using u(1) by (simp_all add: mult.commute)
      then have "u div k = m" by (rule div_nat_eqI)
      then have "u = m * k + i" using u(2) div_mult_mod_eq[of u k] by simp
      then show ?thesis by simp
    qed
  next
    fix u assume "u \<in> insert (m * k + i) ?S"
    then show "u \<in> {u. u < Suc m * k \<and> u mod k = i}"
      using assms by auto
  qed
  then show ?case using Suc.IH fin new by simp
qed

text \<open>
  Claim C4, as stated, fails on a fully expanded node: the root of \<open>full_tree\<close> has its
  only action expanded, and sampling returns that action 0 instead of failing.
\<close>

theorem sample_unexplored_action_counterexample:
  "Node_is_fully_expanded (full_tree ! 0) \<and>
   Node_sample_unexplored_action (full_tree ! 0) 7 = Inr 0 \<and>
   0 \<in> fst ` set (az_node.children (full_tree ! 0))"
  by (simp add: full_tree_def Node_init_def Node_is_fully_expanded_def
      Node_sample_unexplored_action_def Discrete_sample_def)

text \<open>
  Claim C4, amended. For a node whose children are keyed by distinct actions below
  \<open>A\<close>: if it is not fully expanded, \<open>sample_unexplored_action()\<close> returns an action in
  \<open>[0, A)\<close> that has no child, uniformly over the unexpanded set: with \<open>k\<close> the number of
  unexpanded actions, every unexpanded action is the result for exactly \<open>m\<close> of the first
  \<open>m \<cdot> k\<close> values of the draw, whatever \<open>m\<close>. If the node is fully expanded, the call
  returns the start of the action space, 0, and does not fail.
\<close>

theorem sample_unexplored_action_result:
  assumes "distinct (map fst (az_node.children self))"
    and "\<forall>a \<in> set (map fst (az_node.children self)). a < az_node.action_space_n self"
  shows "(\<not> Node_is_fully_expanded self \<longrightarrow>
            (\<exists>a. Node_sample_unexplored_action self u = Inr a \<and>
                 a < az_node.action_space_n self \<and> a \<notin> fst ` set (az_node.children self))) \<and>
         (\<forall>a < az_node.action_space_n self. a \<notin> fst ` set (az_node.children self) \<longrightarrow>
            (\<exists>u'. Node_sample_unexplored_action self u' = Inr a) \<and>
            (\<forall>m. card {u'. u' < m * length (filter (\<lambda>i. i \<notin> fst ` set (az_node.children self))
                                               [0..<az_node.action_space_n self]) \<and>
                           Node_sample_unexplored_action self u' = Inr a} = m)) \<and>
         (Node_is_fully_expanded self \<longrightarrow> Node_sample_unexplored_action self u = Inr 0)"
proof -
  let ?n = "az_node.action_space_n self"
  let ?valid = "filter (\<lambda>i. i \<notin> fst ` set (az_node.children self)) [0..<?n]"
  from unexplored_filter[OF assms(2)] obtain msk where
    m: "clear_mask (map fst (az_node.children self)) (replicate ?n 1) = Inr msk"
       "filter (\<lambda>i. msk ! i = 1) [0..<?n] = ?valid"
    by blast
  have res: "Node_sample_unexplored_action self v =
               Inr (if ?valid \<noteq> [] then ?valid ! (v mod length ?valid) else 0)" for v
    using m by (simp add: Node_sample_unexplored_action_def Discrete_sample_def)
  have cover: "Node_is_fully_expanded self \<longleftrightarrow>
                 (\<forall>i < ?n. i \<in> set (map fst (az_node.children self)))"
    using keys_cover[OF assms] by (simp add: Node_is_fully_expanded_def)
  have p1: "\<exists>a. Node_sample_unexplored_action self u = Inr a \<and> a < ?n \<and>
                a \<notin> fst ` set (az_node.children self)" if "\<not> Node_is_fully_expanded self"
  proof -
    from that cover obtain i where "i < ?n" "i \<notin> fst ` set (az_node.children self)" by auto
    then have ne: "?valid \<noteq> []" by (auto simp: filter_empty_conv)
    define x where "x = ?valid ! (u mod length ?valid)"
    have "u mod length ?valid < length ?valid" using ne by simp
    then have "x \<in> set ?valid" unfolding x_def by (rule nth_mem)
    then have "x < ?n \<and> x \<notin> fst ` set (az_node.children self)" by simp
    then have "?valid ! (u mod length ?valid) < ?n \<and>
               ?valid ! (u mod length ?valid) \<notin> fst ` set (az_node.children self)"
      unfolding x_def .
    then show ?thesis using res[of u] ne by simp
  qed
  have p2: "\<exists>u'. Node_sample_unexplored_action self u' = Inr a"
    if "a < ?n" "a \<notin> fst ` set (az_node.children self)" for a
  proof -
    have "a \<in> set ?valid" using that by simp
    then obtain i where i: "i < length ?valid" "?valid ! i = a" by (meson in_set_conv_nth)
    then have "?valid \<noteq> []" by auto
    then have "Node_sample_unexplored_action self i = Inr a" using res[of i] i by simp
    then show ?thesis by blast
  qed
  have p2u: "card {u'. u' < m * length ?valid \<and> Node_sample_unexplored_action self u' = Inr a} = m"
    if "a < ?n" "a \<notin> fst ` set (az_node.children self)" for a m
  proof -
    have d: "distinct ?valid" by simp
    have "a \<in> set ?valid" using that by simp
    then obtain i where i: "i < length ?valid" "?valid ! i = a" by (meson in_set_conv_nth)
    then have ne: "?valid \<noteq> []" by auto
    have "Node_sample_unexplored_action self v = Inr a \<longleftrightarrow> v mod length ?valid = i" for v
    proof -
      have v: "v mod length ?valid < length ?valid" using ne by simp
      have "Node_sample_unexplored_action self v = Inr a \<longleftrightarrow>
            ?valid ! (v mod length ?valid) = ?valid ! i"
        using res[of v] ne i(2) by simp
      also have "\<dots> \<longleftrightarrow> v mod length ?valid = i"
        using nth_eq_iff_index_eq[OF d v i(1)] .
      finally show ?thesis .
    qed
    then have "{u'. u' < m * length ?valid \<and> Node_sample_unexplored_action self u' = Inr a} =
               {u'. u' < m * length ?valid \<and> u' mod length ?valid = i}"
      by simp
    then show ?thesis using card_mod_class[OF i(1), of m] by simp
  qed
  have p3: "Node_sample_unexplored_action self u = Inr 0" if "Node_is_fully_expanded self"
  proof -
    have "?valid = []" using that cover by (auto simp: filter_empty_conv)
    then show ?thesis using res[of u] by simp
  qed
  show ?thesis using p1 p2 p2u p3 by blast
qed

text \<open>
  Claim C4, amended: the theorem at a leaf of \<open>tie_tree\<close>, which has two unexpanded
  actions, each returned for 3 of the first 6 draws, and at the fully expanded root of
  \<open>full_tree\<close>.
\<close>

theorem sample_unexplored_action_result_witness:
  "distinct (map fst (az_node.children (tie_tree ! 1))) \<and>
   az_node.children (tie_tree ! 1) = [] \<and>
   \<not> Node_is_fully_expanded (tie_tree ! 1) \<and>
   (\<exists>a. Node_sample_unexplored_action (tie_tree ! 1) 3 = Inr a \<and> a < 2) \<and>
   card {u'. u' < 3 * 2 \<and> Node_sample_unexplored_action (tie_tree ! 1) u' = Inr 0} = 3 \<and>
   card {u'. u' < 3 * 2 \<and> Node_sample_unexplored_action (tie_tree ! 1) u' = Inr 1} = 3 \<and>
   Node_is_fully_expanded (full_tree ! 0) \<and>
   Node_sample_unexplored_action (full_tree ! 0) 3 = Inr 0"
proof -
  have a: "distinct (map fst (az_node.children (tie_tree ! 1)))"
    "\<forall>a \<in> set (map fst (az_node.children (tie_tree ! 1))).
        a < az_node.action_space_n (tie_tree ! 1)"
    "\<not> Node_is_fully_expanded (tie_tree ! 1)" "az_node.action_space_n (tie_tree ! 1) = 2"
    "az_node.children (tie_tree ! 1) = []"
    by (simp_all add: tie_tree_def Node_init_def Node_is_fully_expanded_def)
  have k: "length (filter (\<lambda>i. i \<notin> fst ` set (az_node.children (tie_tree ! 1)))
             [0..<az_node.action_space_n (tie_tree ! 1)]) = 2"
    unfolding a(4) a(5) by simp
  have b: "distinct (map fst (az_node.children (full_tree ! 0)))"
    "\<forall>a \<in> set (map fst (az_node.children (full_tree ! 0))).
        a < az_node.action_space_n (full_tree ! 0)"
    "Node_is_fully_expanded (full_tree ! 0)"
    by (simp_all add: full_tree_def Node_init_def Node_is_fully_expanded_def)
  note t = sample_unexplored_action_result[OF a(1,2), of 3]
  note all = t[THEN conjunct2, THEN conjunct1, rule_format, THEN conjunct2, THEN spec, of _ 3]
  have lt: "(0::nat) < az_node.action_space_n (tie_tree ! 1)"
    "(1::nat) < az_node.action_space_n (tie_tree ! 1)"
    "0 \<notin> fst ` set (az_node.children (tie_tree ! 1))"
    "1 \<notin> fst ` set (az_node.children (tie_tree ! 1))"
    unfolding a(4) a(5) by simp_all
  have c0: "card {u'. u' < 3 * 2 \<and> Node_sample_unexplored_action (tie_tree ! 1) u' = Inr 0} = 3"
    using all[OF lt(1) lt(3)] unfolding k .
  have c1: "card {u'. u' < 3 * 2 \<and> Node_sample_unexplored_action (tie_tree ! 1) u' = Inr 1} = 3"
    using all[OF lt(2) lt(4)] unfolding k .
  have e: "\<exists>a. Node_sample_unexplored_action (tie_tree ! 1) 3 = Inr a \<and> a < 2"
    using t a(3,4) by auto
  have f: "Node_sample_unexplored_action (full_tree ! 0) 3 = Inr 0"
    using sample_unexplored_action_result[OF b(1,2), of 3] b(3) by blast
  show ?thesis using a(1,3,5) b(3) c0 c1 e f by blast
qed

subsection \<open>Node.default_value\<close>

text \<open>
  Claim C5, as stated, fails at \<open>visits == 0\<close>: the division raises
  \<open>ZeroDivisionError\<close> instead of returning 0.
\<close>

theorem Node_default_value_counterexample:
  "az_node.visits unvisited = 0 \<and> Node_default_value unvisited = Inl ZeroDivisionError \<and>
   Node_default_value unvisited \<noteq> Inr 0"
  by (simp add: unvisited_def Node_init_def Node_default_value_def)

text \<open>
  Claim C5, amended. \<open>default_value()\<close> returns \<open>subtree_value / visits\<close> when
  \<open>visits > 0\<close>, and raises \<open>ZeroDivisionError\<close> when \<open>visits == 0\<close>.
\<close>

theorem Node_default_value_cases:
  "(0 < az_node.visits self \<longrightarrow>
      Node_default_value self =
        Inr (az_node.subtree_value self / real (az_node.visits self))) \<and>
   (az_node.visits self = 0 \<longrightarrow> Node_default_value self = Inl ZeroDivisionError)"
  by (simp add: Node_default_value_def)

text \<open>Claim C5, amended: the theorem at a visited and at an unvisited node.\<close>

theorem Node_default_value_cases_witness:
  "0 < az_node.visits (tie_tree ! 0) \<and> Node_default_value (tie_tree ! 0) = Inr 0 \<and>
   az_node.visits unvisited = 0 \<and> Node_default_value unvisited = Inl ZeroDivisionError"
  using Node_default_value_cases[of "tie_tree ! 0"] Node_default_value_cases[of unvisited]
  by (simp add: tie_tree_def unvisited_def Node_init_def)

section \<open>Properties of mcts.py\<close>

subsection \<open>Backup\<close>

lemma parent_chain_valid: "parent_chain ns r path \<Longrightarrow> set path \<subseteq> {..<length ns} \<and> path \<noteq> [] \<and> hd path = r"
  by (induction rule: parent_chain.induct) auto

lemma parent_chain_unique:
  "parent_chain ns r p1 \<Longrightarrow> parent_chain ns r p2 \<Longrightarrow> p1 = p2"
proof (induction arbitrary: p2 rule: parent_chain.induct)
  case (at_root r ns)
  from at_root.prems show ?case
  proof (cases rule: parent_chain.cases)
    case at_root
    then show ?thesis by simp
  next
    case (at_child p' path')
    then show ?thesis using at_root.hyps by simp
  qed
next
  case (at_child r ns p path)
  from at_child.prems show ?case
  proof (cases rule: parent_chain.cases)
    case at_root
    then show ?thesis using at_child.hyps by simp
  next
    case (at_child p' path')
    then have "p' = p" using at_child.hyps by simp
    then have "path = path'" using at_child.IH local.at_child(4) by blast
    then show ?thesis using local.at_child(1) by simp
  qed
qed

lemma parent_chain_suffix:
  "parent_chain ns r path \<Longrightarrow> x \<in> set (tl path) \<Longrightarrow>
   \<exists>path'. parent_chain ns x path' \<and> length path' < length path"
proof (induction rule: parent_chain.induct)
  case (at_root r ns)
  then show ?case by simp
next
  case (at_child r ns p path)
  have hd: "hd path = p" "path \<noteq> []" using parent_chain_valid[OF at_child.hyps(3)] by auto
  show ?case
  proof (cases "x = p")
    case True
    then show ?thesis using at_child.hyps(3) by auto
  next
    case False
    then have "x \<in> set (tl path)" using at_child.prems hd by (cases path) auto
    from at_child.IH[OF this] show ?thesis by auto
  qed
qed

lemma parent_chain_distinct: "parent_chain ns r path \<Longrightarrow> distinct path"
proof (induction rule: parent_chain.induct)
  case (at_root r ns)
  then show ?case by simp
next
  case (at_child r ns p path)
  have full: "parent_chain ns r (r # path)"
    using at_child.hyps by (rule parent_chain.at_child)
  have "r \<notin> set path"
  proof
    assume "r \<in> set path"
    then have "r \<in> set (tl (r # path))" by simp
    from parent_chain_suffix[OF full this] obtain path' where
      "parent_chain ns r path'" "length path' < length (r # path)" by blast
    then show False using parent_chain_unique[OF full] by auto
  qed
  then show ?case using at_child.IH by simp
qed

lemma backup_loop_None: "backup_loop \<gamma> k ns None g = Some ns"
  by (subst backup_loop.simps) simp

lemma backup_loop_Some:
  "backup_loop \<gamma> k ns (Some r) g =
     backup_loop \<gamma> k (ns[r := bump (\<gamma> * g + reward (ns ! r)) k (ns ! r)]) (parent (ns ! r))
       (\<gamma> * g + reward (ns ! r))"
  by (subst backup_loop.simps) (simp add: bump_def Let_def mult.commute)

lemma backup_loop_chain:
  assumes "parent_chain ns0 r path"
  shows "same_links ns ns0 \<Longrightarrow>
         \<exists>ns'. backup_loop \<gamma> k ns (Some r) g = Some ns' \<and> length ns' = length ns \<and>
           (\<forall>q < length ns. q \<notin> set path \<longrightarrow> ns' ! q = ns ! q) \<and>
           (\<forall>i < length path.
              ns' ! (path ! i) =
                bump (returns \<gamma> g (map (\<lambda>q. reward (ns0 ! q)) path) ! i) k (ns ! (path ! i)))"
  using assms
proof (induction arbitrary: ns g rule: parent_chain.induct)
  case (at_root r ns0)
  have r: "r < length ns" "parent (ns ! r) = None" "reward (ns ! r) = reward (ns0 ! r)"
    using at_root by (auto simp: same_links_def)
  have "backup_loop \<gamma> k ns (Some r) g = Some (ns[r := bump (\<gamma> * g + reward (ns0 ! r)) k (ns ! r)])"
    using r by (simp add: backup_loop_Some backup_loop_None)
  then show ?case using r by (simp add: nth_list_update)
next
  case (at_child r ns0 p path)
  have r: "r < length ns" "parent (ns ! r) = Some p" "reward (ns ! r) = reward (ns0 ! r)"
    using at_child.hyps at_child.prems by (auto simp: same_links_def)
  define c where "c = \<gamma> * g + reward (ns0 ! r)"
  define ns1 where "ns1 = ns[r := bump c k (ns ! r)]"
  have sl: "same_links ns1 ns0"
    using at_child.prems r(1) by (auto simp: same_links_def ns1_def nth_list_update bump_def)
  have step: "backup_loop \<gamma> k ns (Some r) g = backup_loop \<gamma> k ns1 (Some p) c"
    using r by (simp add: backup_loop_Some ns1_def c_def)
  have full: "distinct (r # path)"
    using parent_chain_distinct[OF parent_chain.at_child[OF at_child.hyps]] .
  from at_child.IH[OF sl, of c] obtain ns' where
    res: "backup_loop \<gamma> k ns1 (Some p) c = Some ns'" "length ns' = length ns1"
      "\<forall>q < length ns1. q \<notin> set path \<longrightarrow> ns' ! q = ns1 ! q"
      "\<forall>i < length path. ns' ! (path ! i) =
          bump (returns \<gamma> c (map (\<lambda>q. reward (ns0 ! q)) path) ! i) k (ns1 ! (path ! i))"
    by blast
  have l: "length ns1 = length ns" by (simp add: ns1_def)
  have a: "\<forall>q < length ns. q \<notin> set (r # path) \<longrightarrow> ns' ! q = ns ! q"
    using res(3) l by (auto simp: ns1_def)
  have b: "ns' ! ((r # path) ! i) =
           bump (returns \<gamma> g (map (\<lambda>q. reward (ns0 ! q)) (r # path)) ! i) k (ns ! ((r # path) ! i))"
    if "i < length (r # path)" for i
  proof (cases i)
    case 0
    have "ns' ! r = ns1 ! r" using res(3) l r(1) full by simp
    then show ?thesis using 0 r(1) by (simp add: ns1_def c_def)
  next
    case (Suc j)
    then have j: "j < length path" using that by simp
    then have "path ! j \<noteq> r" using full by auto
    then have "ns1 ! (path ! j) = ns ! (path ! j)" by (simp add: ns1_def)
    then show ?thesis using Suc res(4) j by (simp add: c_def)
  qed
  show ?case using step res(1,2) l a b by simp
qed

text \<open>
  Claim C1. A backup from \<open>start\<close> with leaf estimate \<open>v\<close> returns, having walked the
  parent chain \<open>path\<close> from \<open>start\<close> to the root, each node once: the \<open>i\<close>-th node of
  the path has had the \<open>i\<close>-th value of the accumulator \<open>g\<close> (\<open>g = \<gamma> \<cdot> g + reward\<close>,
  starting from \<open>v\<close>) added to its \<open>subtree_sum\<close> and 1 added to its \<open>visits\<close>, nothing
  else of it has changed, and every node off the path, the environments and the
  random draws are as before.
\<close>

theorem backup_walks_parent_chain:
  assumes "parent_chain (nodes s) start path"
  shows "\<exists>s'. backup self s start v 1 = Some s' \<and>
           hd path = start \<and> distinct path \<and>
           envs s' = envs s \<and> tick s' = tick s \<and> length (nodes s') = length (nodes s) \<and>
           (\<forall>i < length path.
              nodes s' ! (path ! i) =
                (nodes s ! (path ! i))
                  \<lparr>subtree_sum := subtree_sum (nodes s ! (path ! i)) +
                       returns (discount_factor self) v (map (\<lambda>q. reward (nodes s ! q)) path) ! i,
                   visits := visits (nodes s ! (path ! i)) + 1\<rparr>) \<and>
           (\<forall>q < length (nodes s). q \<notin> set path \<longrightarrow> nodes s' ! q = nodes s ! q)"
proof -
  have sl: "same_links (nodes s) (nodes s)" by (simp add: same_links_def)
  from backup_loop_chain[OF assms sl, of "discount_factor self" 1 v] obtain ns' where
    r: "backup_loop (discount_factor self) 1 (nodes s) (Some start) v = Some ns'"
       "length ns' = length (nodes s)"
       "\<forall>q < length (nodes s). q \<notin> set path \<longrightarrow> ns' ! q = nodes s ! q"
       "\<forall>i < length path. ns' ! (path ! i) =
          bump (returns (discount_factor self) v (map (\<lambda>q. reward (nodes s ! q)) path) ! i) 1
            (nodes s ! (path ! i))"
    by blast
  have "backup self s start v 1 = Some (s\<lparr>nodes := ns'\<rparr>)" using r(1) by (simp add: backup_def)
  moreover have "hd path = start" using parent_chain_valid[OF assms] by simp
  moreover have "distinct path" using parent_chain_distinct[OF assms] .
  ultimately show ?thesis using r(2,3,4) by (simp add: bump_def)
qed

text \<open>
  Claim C1: the theorem on the chain of three nodes with rewards 1, 2, 3 from the leaf
  up, for \<open>v = 4\<close> and \<open>\<gamma> = 1/2\<close>; the accumulator takes the values 3, 7/2, 19/4.
\<close>

theorem backup_walks_parent_chain_witness:
  "parent_chain (nodes chain_state) 2 [2, 1, 0] \<and>
   (\<exists>s'. backup zero_mcts chain_state 2 4 1 = Some s' \<and>
      subtree_sum (nodes s' ! 2) = 3 \<and> visits (nodes s' ! 2) = 1 \<and>
      subtree_sum (nodes s' ! 1) = 7 / 2 \<and> visits (nodes s' ! 1) = 1 \<and>
      subtree_sum (nodes s' ! 0) = 19 / 4 \<and> visits (nodes s' ! 0) = 1)"
proof -
  have c0: "parent_chain (nodes chain_state) 0 [0]"
    by (rule parent_chain.at_root) (simp_all add: chain_state_def node_new_def)
  have c1: "parent_chain (nodes chain_state) 1 [1, 0]"
    by (rule parent_chain.at_child[OF _ _ c0]) (simp_all add: chain_state_def node_new_def)
  have c: "parent_chain (nodes chain_state) 2 [2, 1, 0]"
    by (rule parent_chain.at_child[OF _ _ c1]) (simp_all add: chain_state_def node_new_def)
  from backup_walks_parent_chain[OF c, of zero_mcts 4] obtain s' where
    b: "backup zero_mcts chain_state 2 4 1 = Some s'"
    and n: "\<forall>i < length [2, 1, 0::nat].
              nodes s' ! ([2, 1, 0] ! i) =
                (nodes chain_state ! ([2, 1, 0] ! i))
                  \<lparr>subtree_sum := subtree_sum (nodes chain_state ! ([2, 1, 0] ! i)) +
                       returns (discount_factor zero_mcts) 4
                         (map (\<lambda>q. reward (nodes chain_state ! q)) [2, 1, 0]) ! i,
                   visits := visits (nodes chain_state ! ([2, 1, 0] ! i)) + 1\<rparr>"
    by blast
  have "subtree_sum (nodes s' ! 2) = 3 \<and> visits (nodes s' ! 2) = 1"
    using n[rule_format, of 0] by (simp add: chain_state_def node_new_def zero_mcts_def)
  moreover have "subtree_sum (nodes s' ! 1) = 7 / 2 \<and> visits (nodes s' ! 1) = 1"
    using n[rule_format, of 1] by (simp add: chain_state_def node_new_def zero_mcts_def)
  moreover have "subtree_sum (nodes s' ! 0) = 19 / 4 \<and> visits (nodes s' ! 0) = 1"
    using n[rule_format, of 2] by (simp add: chain_state_def node_new_def zero_mcts_def)
  ultimately show ?thesis using c b by blast
qed

subsection \<open>Frames of the state operations\<close>

lemma update_node_simps [simp]:
  "nodes (update_node r f s) = (nodes s)[r := f (nodes s ! r)]"
  "envs (update_node r f s) = envs s"
  "tick (update_node r f s) = tick s"
  by (simp_all add: update_node_def)

lemma expand_none:
  assumes "env (nodes s ! n) = None"
  shows "expand g s n a = Inl AssertionError"
  using assms by (simp add: expand_def deepcopy_def Let_def)

lemma expand_own:
  assumes "int (length (children (nodes s ! n))) = int (action_space_n (nodes s ! n)) - 1"
    and "env (nodes s ! n) = Some e" and "n < length (nodes s)"
    and "env_step g (envs s ! e) a = (st, obs, r, tm, tr)"
  shows "expand g s n a =
           Inr (length (nodes s),
                s\<lparr>nodes := (nodes s)[n := (nodes s ! n)
                       \<lparr>env := None,
                        children := AList.update a (length (nodes s)) (children (nodes s ! n))\<rparr>] @
                     [node_new (Some e) (Some n) r (action_space_n (nodes s ! n)) (tm \<or> tr)
                        (if tm then None else Some obs)],
                  envs := (envs s)[e := st]\<rparr>)"
  using assms by (simp add: expand_def Let_def update_node_def list_update_append nth_append)

lemma expand_copy:
  assumes "int (length (children (nodes s ! n))) \<noteq> int (action_space_n (nodes s ! n)) - 1"
    and "env (nodes s ! n) = Some e" and "n < length (nodes s)"
    and "env_step g (envs s ! e) a = (st, obs, r, tm, tr)"
  shows "expand g s n a =
           Inr (length (nodes s),
                s\<lparr>nodes := (nodes s)[n := (nodes s ! n)
                       \<lparr>children := AList.update a (length (nodes s)) (children (nodes s ! n))\<rparr>] @
                     [node_new (Some (length (envs s))) (Some n) r (action_space_n (nodes s ! n))
                        (tm \<or> tr) (if tm then None else Some obs)],
                  envs := envs s @ [st]\<rparr>)"
  using assms
  by (simp add: expand_def Let_def update_node_def deepcopy_def list_update_append nth_append)

subsection \<open>The shape of a search tree\<close>

lemma nth_update_at:
  "(xs[r := f (xs ! r)]) ! q = (if q = r \<and> r < length xs then f (xs ! r) else xs ! q)"
  by (cases "r < length xs") (auto simp: nth_list_update list_update_beyond)

lemma tree_ok_root: "tree_ok rt base s \<Longrightarrow> rt < length (nodes s) \<and> parent (nodes s ! rt) = None"
  unfolding tree_ok_def by blast

lemma tree_ok_parent:
  "tree_ok rt base s \<Longrightarrow> rt < r \<Longrightarrow> r < length (nodes s) \<Longrightarrow>
   \<exists>p. parent (nodes s ! r) = Some p \<and> rt \<le> p \<and> p < r"
  unfolding tree_ok_def by blast

lemma tree_ok_child:
  "tree_ok rt base s \<Longrightarrow> rt \<le> r \<Longrightarrow> r < length (nodes s) \<Longrightarrow>
   c \<in> snd ` set (children (nodes s ! r)) \<Longrightarrow> r < c \<and> c < length (nodes s)"
  unfolding tree_ok_def by blast

lemma tree_ok_env:
  "tree_ok rt base s \<Longrightarrow> rt \<le> r \<Longrightarrow> r < length (nodes s) \<Longrightarrow>
   env (nodes s ! r) = Some e \<Longrightarrow> base \<le> e \<and> e < length (envs s)"
  unfolding tree_ok_def by blast

lemma tree_okI:
  assumes "rt < length (nodes s)" and "parent (nodes s ! rt) = None"
    and "\<And>r. rt < r \<Longrightarrow> r < length (nodes s) \<Longrightarrow>
           \<exists>p. parent (nodes s ! r) = Some p \<and> rt \<le> p \<and> p < r"
    and "\<And>r c. rt \<le> r \<Longrightarrow> r < length (nodes s) \<Longrightarrow>
           c \<in> snd ` set (children (nodes s ! r)) \<Longrightarrow> r < c \<and> c < length (nodes s)"
    and "\<And>r e. rt \<le> r \<Longrightarrow> r < length (nodes s) \<Longrightarrow> env (nodes s ! r) = Some e \<Longrightarrow>
           base \<le> e \<and> e < length (envs s)"
  shows "tree_ok rt base s"
  unfolding tree_ok_def using assms by blast

lemma expandableD:
  "expandable rt s \<Longrightarrow> rt \<le> r \<Longrightarrow> r < length (nodes s) \<Longrightarrow>
   0 < action_space_n (nodes s ! r) \<and>
   distinct (map fst (children (nodes s ! r))) \<and>
   (\<forall>a \<in> fst ` set (children (nodes s ! r)). a < action_space_n (nodes s ! r)) \<and>
   (env (nodes s ! r) = None \<longrightarrow> is_fully_expanded (nodes s ! r))"
  unfolding expandable_def by blast

lemma expandableI:
  assumes "\<And>r. rt \<le> r \<Longrightarrow> r < length (nodes s) \<Longrightarrow>
     0 < action_space_n (nodes s ! r) \<and>
     distinct (map fst (children (nodes s ! r))) \<and>
     (\<forall>a \<in> fst ` set (children (nodes s ! r)). a < action_space_n (nodes s ! r)) \<and>
     (env (nodes s ! r) = None \<longrightarrow> is_fully_expanded (nodes s ! r))"
  shows "expandable rt s"
  unfolding expandable_def using assms by blast

lemma same_treeD:
  "same_tree s s' \<Longrightarrow> q < length (nodes s) \<Longrightarrow>
     parent (nodes s' ! q) = parent (nodes s ! q) \<and>
     children (nodes s' ! q) = children (nodes s ! q) \<and>
     action_space_n (nodes s' ! q) = action_space_n (nodes s ! q) \<and>
     reward (nodes s' ! q) = reward (nodes s ! q) \<and>
     terminal (nodes s' ! q) = terminal (nodes s ! q) \<and>
     env (nodes s' ! q) = env (nodes s ! q)"
  unfolding same_tree_def by blast

lemma same_tree_length:
  "same_tree s s' \<Longrightarrow> length (nodes s') = length (nodes s) \<and> envs s' = envs s"
  unfolding same_tree_def by blast

lemma same_tree_trans:
  assumes "same_tree s s'" and "same_tree s' s''"
  shows "same_tree s s''"
  unfolding same_tree_def
proof (intro conjI allI impI)
  show "envs s'' = envs s" using same_tree_length[OF assms(1)] same_tree_length[OF assms(2)] by simp
  show "length (nodes s'') = length (nodes s)"
    using same_tree_length[OF assms(1)] same_tree_length[OF assms(2)] by simp
next
  fix q assume q: "q < length (nodes s)"
  then have q': "q < length (nodes s')" using same_tree_length[OF assms(1)] by simp
  show "parent (nodes s'' ! q) = parent (nodes s ! q)"
    "children (nodes s'' ! q) = children (nodes s ! q)"
    "action_space_n (nodes s'' ! q) = action_space_n (nodes s ! q)"
    "reward (nodes s'' ! q) = reward (nodes s ! q)"
    "terminal (nodes s'' ! q) = terminal (nodes s ! q)"
    "env (nodes s'' ! q) = env (nodes s ! q)"
    using same_treeD[OF assms(1) q] same_treeD[OF assms(2) q'] by simp_all
qed

lemma same_tree_tree_ok:
  assumes "same_tree s s'" and "tree_ok rt base s"
  shows "tree_ok rt base s'"
proof (rule tree_okI)
  note l = same_tree_length[OF assms(1)]
  show "rt < length (nodes s')" using tree_ok_root[OF assms(2)] l by simp
  show "parent (nodes s' ! rt) = None"
    using tree_ok_root[OF assms(2)] same_treeD[OF assms(1), of rt] by simp
  show "\<exists>p. parent (nodes s' ! r) = Some p \<and> rt \<le> p \<and> p < r"
    if "rt < r" "r < length (nodes s')" for r
    using tree_ok_parent[OF assms(2) that(1)] same_treeD[OF assms(1), of r] that(2) l by simp
  show "r < c \<and> c < length (nodes s')"
    if "rt \<le> r" "r < length (nodes s')" "c \<in> snd ` set (children (nodes s' ! r))" for r c
    using tree_ok_child[OF assms(2) that(1), of c] same_treeD[OF assms(1), of r] that(2,3) l by simp
  show "base \<le> e \<and> e < length (envs s')"
    if "rt \<le> r" "r < length (nodes s')" "env (nodes s' ! r) = Some e" for r e
    using tree_ok_env[OF assms(2) that(1), of e] same_treeD[OF assms(1), of r] that(2,3) l by simp
qed

lemma same_tree_expandable:
  assumes "same_tree s s'" and "expandable rt s"
  shows "expandable rt s'"
proof (rule expandableI)
  fix r assume r: "rt \<le> r" "r < length (nodes s')"
  then have q: "r < length (nodes s)" using same_tree_length[OF assms(1)] by simp
  show "0 < action_space_n (nodes s' ! r) \<and>
     distinct (map fst (children (nodes s' ! r))) \<and>
     (\<forall>a \<in> fst ` set (children (nodes s' ! r)). a < action_space_n (nodes s' ! r)) \<and>
     (env (nodes s' ! r) = None \<longrightarrow> is_fully_expanded (nodes s' ! r))"
    using expandableD[OF assms(2) r(1) q] same_treeD[OF assms(1) q]
    by (simp add: is_fully_expanded_def)
qed

subsection \<open>Backup on a search tree\<close>

lemma returns_length: "length (returns \<gamma> g rs) = length rs"
  by (induction rs arbitrary: g) simp_all

lemma returns_nonneg:
  "0 \<le> \<gamma> \<Longrightarrow> 0 \<le> g \<Longrightarrow> \<forall>r \<in> set rs. 0 \<le> r \<Longrightarrow> \<forall>x \<in> set (returns \<gamma> g rs). 0 \<le> x"
proof (induction rs arbitrary: g)
  case Nil
  then show ?case by simp
next
  case (Cons r rs)
  have c: "0 \<le> \<gamma> * g + r" using Cons.prems by simp
  have "\<forall>x \<in> set (returns \<gamma> (\<gamma> * g + r) rs). 0 \<le> x"
    using Cons.IH[OF Cons.prems(1) c] Cons.prems(3) by simp
  then show ?case using c by simp
qed

lemma chain_above:
  assumes "tree_ok rt base s"
  shows "rt \<le> r \<Longrightarrow> r < length (nodes s) \<Longrightarrow>
         \<exists>path. parent_chain (nodes s) r path \<and> rt \<in> set path \<and> (\<forall>q \<in> set path. rt \<le> q)"
proof (induction r rule: less_induct)
  case (less r)
  show ?case
  proof (cases "r = rt")
    case True
    have "parent_chain (nodes s) rt [rt]"
      using tree_ok_root[OF assms] by (intro parent_chain.at_root) simp_all
    then show ?thesis using True by auto
  next
    case False
    then have "rt < r" using less.prems by simp
    then obtain p where p: "parent (nodes s ! r) = Some p" "rt \<le> p" "p < r"
      using tree_ok_parent[OF assms] less.prems by blast
    from less.IH[OF p(3) p(2)] p(3) less.prems obtain path where
      c: "parent_chain (nodes s) p path" "rt \<in> set path" "\<forall>q \<in> set path. rt \<le> q" by auto
    have "parent_chain (nodes s) r (r # path)"
      using less.prems(2) p(1) c(1) by (rule parent_chain.at_child)
    then show ?thesis using c(2,3) less.prems(1) by (intro exI[of _ "r # path"]) auto
  qed
qed

lemma backup_loop_gain:
  assumes "parent_chain ns r path"
  shows "\<exists>ns'. backup_loop \<gamma> k ns (Some r) g = Some ns' \<and> length ns' = length ns \<and>
           (\<forall>q < length ns. q \<notin> set path \<longrightarrow> ns' ! q = ns ! q) \<and>
           (\<forall>q \<in> set path. \<exists>x. ns' ! q = bump x k (ns ! q) \<and>
              (0 \<le> \<gamma> \<and> 0 \<le> g \<and> (\<forall>p \<in> set path. 0 \<le> reward (ns ! p)) \<longrightarrow> 0 \<le> x))"
proof -
  have sl: "same_links ns ns" by (simp add: same_links_def)
  let ?rs = "returns \<gamma> g (map (\<lambda>q. reward (ns ! q)) path)"
  from backup_loop_chain[OF assms sl, of \<gamma> k g] obtain ns' where
    r: "backup_loop \<gamma> k ns (Some r) g = Some ns'" "length ns' = length ns"
       "\<forall>q < length ns. q \<notin> set path \<longrightarrow> ns' ! q = ns ! q"
       "\<forall>i < length path. ns' ! (path ! i) = bump (?rs ! i) k (ns ! (path ! i))"
    by blast
  have "\<exists>x. ns' ! q = bump x k (ns ! q) \<and>
          (0 \<le> \<gamma> \<and> 0 \<le> g \<and> (\<forall>p \<in> set path. 0 \<le> reward (ns ! p)) \<longrightarrow> 0 \<le> x)"
    if "q \<in> set path" for q
  proof -
    from that obtain i where i: "i < length path" "path ! i = q" by (meson in_set_conv_nth)
    have b: "ns' ! q = bump (?rs ! i) k (ns ! q)" using r(4) i by blast
    have "0 \<le> ?rs ! i" if h: "0 \<le> \<gamma>" "0 \<le> g" "\<forall>p \<in> set path. 0 \<le> reward (ns ! p)"
    proof -
      have "\<forall>x \<in> set (map (\<lambda>q. reward (ns ! q)) path). 0 \<le> x" using h(3) by simp
      from returns_nonneg[OF h(1,2) this] have "\<forall>x \<in> set ?rs. 0 \<le> x" .
      moreover have "?rs ! i \<in> set ?rs" using i(1) by (simp add: returns_length)
      ultimately show ?thesis by blast
    qed
    then show ?thesis using b by blast
  qed
  then show ?thesis using r(1,2,3) by blast
qed

lemma grows_refl: "grows base s s"
  by (simp add: grows_def)

lemma growsD:
  "grows base s s' \<Longrightarrow>
     length (nodes s) \<le> length (nodes s') \<and> length (envs s) \<le> length (envs s')"
  "grows base s s' \<Longrightarrow> q < length (nodes s) \<Longrightarrow> visits (nodes s ! q) \<le> visits (nodes s' ! q)"
  "grows base s s' \<Longrightarrow> i < base \<Longrightarrow> envs s' ! i = envs s ! i"
  unfolding grows_def by blast+

lemma grows_trans:
  assumes "grows base s s'" and "grows base s' s''"
  shows "grows base s s''"
  unfolding grows_def
proof (intro conjI allI impI)
  show "length (nodes s) \<le> length (nodes s'')" "length (envs s) \<le> length (envs s'')"
    using growsD(1)[OF assms(1)] growsD(1)[OF assms(2)] by simp_all
next
  fix q assume q: "q < length (nodes s)"
  then have "q < length (nodes s')" using growsD(1)[OF assms(1)] by simp
  then show "visits (nodes s ! q) \<le> visits (nodes s'' ! q)"
    using growsD(2)[OF assms(1) q] growsD(2)[OF assms(2), of q] by simp
next
  fix i assume "i < base"
  then show "envs s'' ! i = envs s ! i"
    using growsD(3)[OF assms(1), of i] growsD(3)[OF assms(2), of i] by simp
qed

lemma gains_refl: "gains s s"
  by (simp add: gains_def)

lemma gainsD:
  "gains s s' \<Longrightarrow> q < length (nodes s) \<Longrightarrow> subtree_sum (nodes s ! q) \<le> subtree_sum (nodes s' ! q)"
  unfolding gains_def by blast

lemma gains_trans:
  assumes "gains s s'" and "gains s' s''" and "length (nodes s) \<le> length (nodes s')"
  shows "gains s s''"
  unfolding gains_def
proof (intro allI impI)
  fix q assume q: "q < length (nodes s)"
  then have "q < length (nodes s')" using assms(3) by simp
  then show "subtree_sum (nodes s ! q) \<le> subtree_sum (nodes s'' ! q)"
    using gainsD[OF assms(1) q] gainsD[OF assms(2), of q] by simp
qed

lemma backup_tree_gain:
  assumes "tree_ok rt base s" and "rt \<le> r" and "r < length (nodes s)"
  shows "\<exists>s'. backup self s r v 1 = Some s' \<and> same_tree s s' \<and> tick s' = tick s \<and>
           visits (nodes s' ! rt) = visits (nodes s ! rt) + 1 \<and> grows base s s' \<and>
           (\<forall>q < length (nodes s).
              value_evaluation (nodes s' ! q) = value_evaluation (nodes s ! q)) \<and>
           (0 \<le> discount_factor self \<and> 0 \<le> v \<and> nonneg_rewards rt s \<longrightarrow> gains s s')"
proof -
  from chain_above[OF assms] obtain path where
    c: "parent_chain (nodes s) r path" "rt \<in> set path" "\<forall>q \<in> set path. rt \<le> q" by blast
  have pv: "\<forall>q \<in> set path. q < length (nodes s)" using parent_chain_valid[OF c(1)] by auto
  let ?nn = "0 \<le> discount_factor self \<and> 0 \<le> v \<and> (\<forall>p \<in> set path. 0 \<le> reward (nodes s ! p))"
  from backup_loop_gain[OF c(1), of "discount_factor self" 1 v] obtain ns' where
    r: "backup_loop (discount_factor self) 1 (nodes s) (Some r) v = Some ns'"
       "length ns' = length (nodes s)"
       "\<forall>q < length (nodes s). q \<notin> set path \<longrightarrow> ns' ! q = nodes s ! q"
       "\<forall>q \<in> set path. \<exists>x. ns' ! q = bump x 1 (nodes s ! q) \<and> (?nn \<longrightarrow> 0 \<le> x)"
    by blast
  have b: "backup self s r v 1 = Some (s\<lparr>nodes := ns'\<rparr>)" using r(1) by (simp add: backup_def)
  have each: "ns' ! q = nodes s ! q \<or> (\<exists>x. ns' ! q = bump x 1 (nodes s ! q) \<and> (?nn \<longrightarrow> 0 \<le> x))"
    if "q < length (nodes s)" for q
    using r(3,4) that by blast
  have fields: "parent (ns' ! q) = parent (nodes s ! q) \<and>
        children (ns' ! q) = children (nodes s ! q) \<and>
        action_space_n (ns' ! q) = action_space_n (nodes s ! q) \<and>
        reward (ns' ! q) = reward (nodes s ! q) \<and>
        terminal (ns' ! q) = terminal (nodes s ! q) \<and>
        env (ns' ! q) = env (nodes s ! q) \<and>
        value_evaluation (ns' ! q) = value_evaluation (nodes s ! q) \<and>
        visits (nodes s ! q) \<le> visits (ns' ! q) \<and>
        (?nn \<longrightarrow> subtree_sum (nodes s ! q) \<le> subtree_sum (ns' ! q))"
    if "q < length (nodes s)" for q
    using each[OF that] by (elim disjE exE conjE) (simp_all add: bump_def)
  have st: "same_tree s (s\<lparr>nodes := ns'\<rparr>)"
    unfolding same_tree_def using fields r(2) by simp
  from r(4) c(2) obtain x where "ns' ! rt = bump x 1 (nodes s ! rt)" by blast
  then have rt: "visits (ns' ! rt) = visits (nodes s ! rt) + 1" by (simp add: bump_def)
  have gr: "grows base s (s\<lparr>nodes := ns'\<rparr>)"
    unfolding grows_def using fields r(2) by simp
  have nn: "?nn" if "0 \<le> discount_factor self \<and> 0 \<le> v \<and> nonneg_rewards rt s"
    using that c(3) pv unfolding nonneg_rewards_def by blast
  have ga: "gains s (s\<lparr>nodes := ns'\<rparr>)"
    if "0 \<le> discount_factor self \<and> 0 \<le> v \<and> nonneg_rewards rt s"
    unfolding gains_def using fields nn[OF that] by simp
  show ?thesis using b st rt gr ga fields by simp
qed

subsection \<open>Selection, sampling and growth\<close>

lemma policy_okD:
  "policy_ok sel \<Longrightarrow> r < length ns \<Longrightarrow> 0 < action_space_n (ns ! r) \<Longrightarrow>
   (if is_fully_expanded (ns ! r)
    then \<exists>a. sel ns r = Some a \<and> a \<in> fst ` set (children (ns ! r))
    else sel ns r = None)"
  unfolding policy_ok_def by blast

lemma select_total:
  assumes "tree_ok rt base s"
  shows "rt \<le> r \<Longrightarrow> r < length (nodes s) \<Longrightarrow>
    \<exists>res. select_node_to_expand self (nodes s) r = Some res \<and>
      (\<forall>sel. res = Inr sel \<longrightarrow> rt \<le> sel \<and> sel < length (nodes s) \<and>
         (\<not> is_terminal (nodes s ! sel) \<longrightarrow> selection_policy self (nodes s) sel = None)) \<and>
      (policy_ok (selection_policy self) \<and> expandable rt s \<longrightarrow> (\<exists>sel. res = Inr sel))"
proof (induction "length (nodes s) - r" arbitrary: r rule: less_induct)
  case less
  let ?ns = "nodes s"
  show ?case
  proof (cases "is_terminal (?ns ! r)")
    case True
    then have "select_node_to_expand self ?ns r = Some (Inr r)"
      by (subst select_node_to_expand.simps) simp
    then show ?thesis using less.prems True by simp
  next
    case nt: False
    show ?thesis
    proof (cases "selection_policy self ?ns r")
      case None
      then have "select_node_to_expand self ?ns r = Some (Inr r)"
        using nt by (subst select_node_to_expand.simps) simp
      then show ?thesis using less.prems None by simp
    next
      case (Some a)
      show ?thesis
      proof (cases "map_of (children (?ns ! r)) a")
        case None
        then have e: "select_node_to_expand self ?ns r = Some (Inl UnexpandedAction)"
          using nt Some by (subst select_node_to_expand.simps) (simp add: step_def)
        have "False" if h: "policy_ok (selection_policy self) \<and> expandable rt s"
        proof -
          have "0 < action_space_n (?ns ! r)" using expandableD[of rt s r] h less.prems by simp
          from policy_okD[OF _ less.prems(2) this, of "selection_policy self"] h Some
          have "a \<in> fst ` set (children (?ns ! r))" by (auto split: if_splits)
          then show False using None by (simp add: map_of_eq_None_iff)
        qed
        then show ?thesis using e by auto
      next
        case (Some c)
        then have "(a, c) \<in> set (children (?ns ! r))" by (rule map_of_SomeD)
        then have "c \<in> snd ` set (children (?ns ! r))" by force
        from tree_ok_child[OF assms less.prems this] have c: "r < c" "c < length ?ns" by simp_all
        have s1: "select_node_to_expand self ?ns r = select_node_to_expand self ?ns c"
          using nt \<open>selection_policy self ?ns r = Some a\<close> Some
          by (subst select_node_to_expand.simps) (simp add: step_def)
        have "length ?ns - c < length ?ns - r" using c by simp
        from less.hyps[OF this _ c(2)] c(1) less.prems(1) show ?thesis
          unfolding s1 by simp
      qed
    qed
  qed
qed

lemma sample_unexplored_action_sound:
  "sample_unexplored_action nd u = Inr a \<Longrightarrow>
   a < action_space_n nd \<and> a \<notin> fst ` set (children nd)"
proof -
  let ?un = "filter (\<lambda>a. a \<notin> fst ` set (children nd)) [0..<action_space_n nd]"
  assume r: "sample_unexplored_action nd u = Inr a"
  then have ne: "?un \<noteq> []" by (auto simp: sample_unexplored_action_def Let_def split: if_splits)
  then have "a = ?un ! (u mod length ?un)"
    using r by (simp add: sample_unexplored_action_def Let_def)
  moreover have "u mod length ?un < length ?un" using ne by simp
  ultimately have "a \<in> set ?un" using nth_mem by blast
  then show ?thesis by simp
qed

lemma sample_unexplored_action_total:
  assumes "distinct (map fst (children nd))"
    and "\<forall>a \<in> fst ` set (children nd). a < action_space_n nd"
    and "\<not> is_fully_expanded nd"
  shows "\<exists>a. sample_unexplored_action nd u = Inr a"
proof -
  have "\<forall>a \<in> set (map fst (children nd)). a < action_space_n nd" using assms(2) by simp
  from keys_cover[OF assms(1) this] assms(3) obtain i where
    "i < action_space_n nd" "i \<notin> fst ` set (children nd)"
    by (auto simp: is_fully_expanded_def)
  then have "filter (\<lambda>a. a \<notin> fst ` set (children nd)) [0..<action_space_n nd] \<noteq> []"
    by (auto simp: filter_empty_conv)
  then show ?thesis by (simp add: sample_unexplored_action_def Let_def)
qed

lemma set_update_subset: "set (AList.update k v al) \<subseteq> insert (k, v) (set al)"
  by (induction al) auto

lemma tree_ok_grow:
  assumes ok: "tree_ok rt base s" and n: "rt \<le> n" "n < length (nodes s)"
    and shape: "nodes s' = (nodes s)[n := nd'] @ [child]"
    and nd: "parent nd' = parent (nodes s ! n)"
      "children nd' = AList.update a (length (nodes s)) (children (nodes s ! n))"
      "env nd' = None \<or> env nd' = env (nodes s ! n)"
    and ch: "parent child = Some n" "children child = []" "env child = Some e'"
      "base \<le> e'" "e' < length (envs s')"
    and le: "length (envs s) \<le> length (envs s')"
  shows "tree_ok rt base s'"
proof (rule tree_okI)
  let ?L = "length (nodes s)"
  have len: "length (nodes s') = Suc ?L" using shape by simp
  have at: "nodes s' ! q = (if q = ?L then child else if q = n then nd' else nodes s ! q)"
    if "q \<le> ?L" for q
    using that n(2) shape by (auto simp: nth_append nth_list_update)
  show "rt < length (nodes s')" using len n by simp
  show "parent (nodes s' ! rt) = None"
    using at[of rt] n tree_ok_root[OF ok] nd(1) by (auto split: if_splits)
  show "\<exists>p. parent (nodes s' ! r) = Some p \<and> rt \<le> p \<and> p < r"
    if r: "rt < r" "r < length (nodes s')" for r
  proof (cases "r = ?L")
    case True
    then show ?thesis using at[of r] ch(1) n by simp
  next
    case False
    then have rl: "r < ?L" using r(2) len by simp
    from tree_ok_parent[OF ok r(1) rl] show ?thesis using at[of r] rl nd(1) by auto
  qed
  show "r < c \<and> c < length (nodes s')"
    if r: "rt \<le> r" "r < length (nodes s')" "c \<in> snd ` set (children (nodes s' ! r))" for r c
  proof (cases "r = ?L")
    case True
    then show ?thesis using at[of r] ch(2) r(3) by simp
  next
    case False
    then have rl: "r < ?L" using r(2) len by simp
    show ?thesis
    proof (cases "r = n")
      case True
      then have "c \<in> snd ` set (AList.update a ?L (children (nodes s ! n)))"
        using at[of r] rl nd(2) r(3) by simp
      then have "c = ?L \<or> c \<in> snd ` set (children (nodes s ! n))"
        using set_update_subset[of a ?L "children (nodes s ! n)"] by auto
      then show ?thesis
      proof
        assume "c = ?L"
        then show ?thesis using True rl len by simp
      next
        assume "c \<in> snd ` set (children (nodes s ! n))"
        from tree_ok_child[OF ok n this] show ?thesis using True len by simp
      qed
    next
      case False
      then have "c \<in> snd ` set (children (nodes s ! r))" using at[of r] rl r(3) by simp
      from tree_ok_child[OF ok r(1) rl this] show ?thesis using len by simp
    qed
  qed
  show "base \<le> e \<and> e < length (envs s')"
    if r: "rt \<le> r" "r < length (nodes s')" "env (nodes s' ! r) = Some e" for r e
  proof (cases "r = ?L")
    case True
    then show ?thesis using at[of r] ch(3,4,5) r(3) by simp
  next
    case False
    then have rl: "r < ?L" using r(2) len by simp
    have "env (nodes s ! r) = Some e"
      using at[of r] rl r(3) nd(3) by (auto split: if_splits)
    from tree_ok_env[OF ok r(1) rl this] show ?thesis using le by simp
  qed
qed

lemma expandable_grow:
  assumes ex: "expandable rt s" and n: "rt \<le> n" "n < length (nodes s)"
    and shape: "nodes s' = (nodes s)[n := nd'] @ [child]"
    and nd: "action_space_n nd' = action_space_n (nodes s ! n)"
      "children nd' = AList.update a (length (nodes s)) (children (nodes s ! n))"
      "env nd' = None \<longrightarrow> is_fully_expanded nd'"
    and a: "a < action_space_n (nodes s ! n)"
    and ch: "action_space_n child = action_space_n (nodes s ! n)" "children child = []"
      "env child \<noteq> None"
  shows "expandable rt s'"
proof (rule expandableI)
  let ?L = "length (nodes s)"
  have len: "length (nodes s') = Suc ?L" using shape by simp
  have at: "nodes s' ! q = (if q = ?L then child else if q = n then nd' else nodes s ! q)"
    if "q \<le> ?L" for q
    using that n(2) shape by (auto simp: nth_append nth_list_update)
  note old = expandableD[OF ex n]
  fix r assume r: "rt \<le> r" "r < length (nodes s')"
  show "0 < action_space_n (nodes s' ! r) \<and>
     distinct (map fst (children (nodes s' ! r))) \<and>
     (\<forall>a \<in> fst ` set (children (nodes s' ! r)). a < action_space_n (nodes s' ! r)) \<and>
     (env (nodes s' ! r) = None \<longrightarrow> is_fully_expanded (nodes s' ! r))"
  proof (cases "r = ?L")
    case True
    then show ?thesis using at[of r] ch old by auto
  next
    case False
    then have rl: "r < ?L" using r(2) len by simp
    show ?thesis
    proof (cases "r = n")
      case True
      have "distinct (map fst (children nd'))" using old nd(2) by (simp add: distinct_update)
      moreover have "\<forall>x \<in> fst ` set (children nd'). x < action_space_n nd'"
        using old nd(1,2) a by (auto simp: dom_update)
      ultimately show ?thesis using at[of r] True rl old nd(1,3) by simp
    next
      case False
      then show ?thesis using at[of r] rl expandableD[OF ex r(1) rl] by simp
    qed
  qed
qed

subsection \<open>Expansion\<close>

lemma length_update_fresh:
  "a \<notin> fst ` set al \<Longrightarrow> length (AList.update a v al) = Suc (length al)"
  by (induction al) auto

lemma expand_shape:
  assumes ok: "tree_ok rt base s" and n: "rt \<le> n" "n < length (nodes s)"
    and e: "env (nodes s ! n) = Some e"
  shows "\<exists>x e' envs' r tm obs.
     expand g s n a =
       Inr (length (nodes s),
            s\<lparr>nodes := (nodes s)[n := (nodes s ! n)
                   \<lparr>env := x,
                    children := AList.update a (length (nodes s)) (children (nodes s ! n))\<rparr>] @
                 [node_new (Some e') (Some n) r (action_space_n (nodes s ! n)) tm obs],
              envs := envs'\<rparr>) \<and>
     (x = None \<or> x = Some e) \<and> base \<le> e' \<and> e' < length envs' \<and>
     length (envs s) \<le> length envs' \<and> (\<forall>i < base. envs' ! i = envs s ! i) \<and>
     (x = None \<longrightarrow> int (length (children (nodes s ! n))) = int (action_space_n (nodes s ! n)) - 1) \<and>
     r = fst (snd (snd (env_step g (envs s ! e) a)))"
proof -
  from tree_ok_env[OF ok n e] have eb: "base \<le> e" "e < length (envs s)" by simp_all
  obtain st obs r tm tr where st: "env_step g (envs s ! e) a = (st, obs, r, tm, tr)"
    by (metis prod_cases5)
  show ?thesis
  proof (cases "int (length (children (nodes s ! n))) = int (action_space_n (nodes s ! n)) - 1")
    case True
    show ?thesis
      apply (rule exI[of _ None], rule exI[of _ e], rule exI[of _ "(envs s)[e := st]"],
          rule exI[of _ r], rule exI[of _ "tm \<or> tr"],
          rule exI[of _ "if tm then None else Some obs"])
      using expand_own[OF True e n(2) st] eb True st by simp
  next
    case False
    have same: "(nodes s ! n)\<lparr>env := Some e, children := c\<rparr> = (nodes s ! n)\<lparr>children := c\<rparr>"
      for c using e by (cases "nodes s ! n") auto
    show ?thesis
      apply (rule exI[of _ "Some e"], rule exI[of _ "length (envs s)"],
          rule exI[of _ "envs s @ [st]"],
          rule exI[of _ r], rule exI[of _ "tm \<or> tr"],
          rule exI[of _ "if tm then None else Some obs"])
      using expand_copy[OF False e n(2) st] eb st e by (simp add: nth_append same)
  qed
qed

lemma expand_result:
  assumes ok: "tree_ok rt base s" and n: "rt \<le> n" "n < length (nodes s)"
  shows "(env (nodes s ! n) = None \<and> expand g s n a = Inl AssertionError) \<or>
     (\<exists>s'. expand g s n a = Inr (length (nodes s), s') \<and>
        length (nodes s') = Suc (length (nodes s)) \<and>
        tree_ok rt base s' \<and> grows base s s' \<and> gains s s' \<and> tick s' = tick s \<and>
        visits (nodes s' ! rt) = visits (nodes s ! rt) \<and>
        env (nodes s' ! length (nodes s)) \<noteq> None \<and>
        (nonneg_gym self g \<and> nonneg_rewards rt s \<longrightarrow> nonneg_rewards rt s') \<and>
        (expandable rt s \<and> a < action_space_n (nodes s ! n) \<and>
         a \<notin> fst ` set (children (nodes s ! n)) \<longrightarrow> expandable rt s'))"
proof (cases "env (nodes s ! n)")
  case None
  then show ?thesis using expand_none[OF None] by simp
next
  case (Some e)
  let ?L = "length (nodes s)"
  let ?old = "nodes s ! n"
  from expand_shape[OF ok n Some, of g a] obtain x e' envs' r tm obs where
    ex: "expand g s n a =
       Inr (?L, s\<lparr>nodes := (nodes s)[n := ?old
                   \<lparr>env := x, children := AList.update a ?L (children ?old)\<rparr>] @
                 [node_new (Some e') (Some n) r (action_space_n ?old) tm obs],
              envs := envs'\<rparr>)"
    and x: "x = None \<or> x = Some e" and e': "base \<le> e'" "e' < length envs'"
    and le: "length (envs s) \<le> length envs'" and pre: "\<forall>i < base. envs' ! i = envs s ! i"
    and own: "x = None \<longrightarrow> int (length (children ?old)) = int (action_space_n ?old) - 1"
    and r: "r = fst (snd (snd (env_step g (envs s ! e) a)))"
    by blast
  define nd' where "nd' = ?old\<lparr>env := x, children := AList.update a ?L (children ?old)\<rparr>"
  define child where "child = node_new (Some e') (Some n) r (action_space_n ?old) tm obs"
  define s' where "s' = s\<lparr>nodes := (nodes s)[n := nd'] @ [child], envs := envs'\<rparr>"
  have shape: "nodes s' = (nodes s)[n := nd'] @ [child]" by (simp add: s'_def)
  have at: "nodes s' ! q = (if q = ?L then child else if q = n then nd' else nodes s ! q)"
    if "q \<le> ?L" for q
    using that n(2) shape by (auto simp: nth_append nth_list_update)
  have res: "expand g s n a = Inr (?L, s')" using ex by (simp add: s'_def nd'_def child_def)
  have t: "tree_ok rt base s'"
  proof (rule tree_ok_grow[OF ok n shape])
    show "parent nd' = parent ?old" by (simp add: nd'_def)
    show "children nd' = AList.update a ?L (children ?old)" by (simp add: nd'_def)
    show "env nd' = None \<or> env nd' = env ?old" using x Some by (auto simp: nd'_def)
    show "parent child = Some n" "children child = []" "env child = Some e'"
      by (simp_all add: child_def node_new_def)
    show "base \<le> e'" "e' < length (envs s')" "length (envs s) \<le> length (envs s')"
      using e' le by (simp_all add: s'_def)
  qed
  have stats: "visits (nodes s' ! q) = visits (nodes s ! q) \<and>
               subtree_sum (nodes s' ! q) = subtree_sum (nodes s ! q) \<and>
               reward (nodes s' ! q) = reward (nodes s ! q)" if "q < ?L" for q
    using at[of q] that by (simp add: nd'_def)
  have gr: "grows base s s'"
    unfolding grows_def using stats le pre by (simp add: s'_def)
  have ga: "gains s s'" unfolding gains_def using stats by simp
  have nn: "nonneg_rewards rt s'" if h: "nonneg_gym self g \<and> nonneg_rewards rt s"
    unfolding nonneg_rewards_def
  proof (intro allI impI)
    fix q assume q: "rt \<le> q \<and> q < length (nodes s')"
    show "0 \<le> reward (nodes s' ! q)"
    proof (cases "q = ?L")
      case True
      have "0 \<le> r" using h r unfolding nonneg_gym_def by simp
      then show ?thesis using at[of q] True by (simp add: child_def node_new_def)
    next
      case False
      then have "q < ?L" using q shape by simp
      then show ?thesis using stats[of q] h q unfolding nonneg_rewards_def by simp
    qed
  qed
  have exb: "expandable rt s'"
    if h: "expandable rt s \<and> a < action_space_n ?old \<and> a \<notin> fst ` set (children ?old)"
  proof (rule expandable_grow[OF _ n shape])
    show "expandable rt s" using h by simp
    show "action_space_n nd' = action_space_n ?old" by (simp add: nd'_def)
    show "children nd' = AList.update a ?L (children ?old)" by (simp add: nd'_def)
    show "env nd' = None \<longrightarrow> is_fully_expanded nd'"
    proof
      assume "env nd' = None"
      then have "x = None" by (simp add: nd'_def)
      then have "int (length (children ?old)) = int (action_space_n ?old) - 1" using own by simp
      then have "Suc (length (children ?old)) = action_space_n ?old" by simp
      then show "is_fully_expanded nd'"
        using h by (simp add: is_fully_expanded_def nd'_def length_update_fresh)
    qed
    show "a < action_space_n ?old" using h by simp
    show "action_space_n child = action_space_n ?old" "children child = []" "env child \<noteq> None"
      by (simp_all add: child_def node_new_def)
  qed
  have "visits (nodes s' ! rt) = visits (nodes s ! rt)" using stats[of rt] n by simp
  moreover have "env (nodes s' ! ?L) \<noteq> None" using at[of ?L] by (simp add: child_def node_new_def)
  moreover have "length (nodes s') = Suc ?L" using shape by simp
  moreover have "tick s' = tick s" by (simp add: s'_def)
  ultimately show ?thesis using res t gr ga nn exb by blast
qed

subsection \<open>Evaluation\<close>

lemma advances_refl: "tree_ok rt base s \<Longrightarrow> advances rt base self g s s"
  by (simp add: advances_def grows_refl gains_refl)

lemma advances_trans:
  assumes "advances rt base self g s s'" and "advances rt base self g s' s''"
  shows "advances rt base self g s s''"
proof -
  have l: "length (nodes s) \<le> length (nodes s')" using assms(1) growsD(1) advances_def by blast
  have "grows base s s''" using assms grows_trans unfolding advances_def by blast
  moreover have "nonneg_rewards rt s'' \<and> gains s s''" if "nonneg_gym self g \<and> nonneg_rewards rt s"
    using assms that gains_trans[OF _ _ l] unfolding advances_def by blast
  ultimately show ?thesis using assms(2) unfolding advances_def by blast
qed

lemma same_tree_nonneg_rewards:
  assumes "same_tree s s'" and "nonneg_rewards rt s"
  shows "nonneg_rewards rt s'"
  unfolding nonneg_rewards_def
proof (intro allI impI)
  fix q assume q: "rt \<le> q \<and> q < length (nodes s')"
  then have "q < length (nodes s)" using same_tree_length[OF assms(1)] by simp
  then show "0 \<le> reward (nodes s' ! q)"
    using same_treeD[OF assms(1), of q] assms(2) q unfolding nonneg_rewards_def by simp
qed

lemma rollout_nonneg:
  assumes "\<forall>e a. 0 \<le> fst (snd (snd (env_step g e a)))"
  shows "0 \<le> acc \<Longrightarrow> 0 \<le> fst (rollout g k e t acc)"
proof (induction k arbitrary: e t acc)
  case 0
  then show ?case by simp
next
  case (Suc k)
  obtain e' obs r tm tr where st: "env_step g e (draw g t mod env_n g e) = (e', obs, r, tm, tr)"
    by (metis prod_cases5)
  have "0 \<le> r" using assms[rule_format, of e "draw g t mod env_n g e"] st by simp
  then have "0 \<le> acc + r" using Suc.prems by simp
  then show ?case using st Suc.IH[of "acc + r"] by (simp add: Let_def)
qed

lemma value_function_result:
  "(env (nodes s ! n) = None \<and> value_function self g s n = Inl AssertionError) \<or>
   (\<exists>v t. value_function self g s n = Inr (v, s\<lparr>tick := t\<rparr>) \<and> (nonneg_gym self g \<longrightarrow> 0 \<le> v))"
proof (cases "rollout_budget self")
  case None
  have "value_function self g s n = Inr (0, s\<lparr>tick := tick s\<rparr>)"
    using None by (simp add: value_function_def)
  then show ?thesis by blast
next
  case (Some k)
  show ?thesis
  proof (cases "is_terminal (nodes s ! n)")
    case True
    have "value_function self g s n = Inr (0, s\<lparr>tick := tick s\<rparr>)"
      using Some True by (simp add: value_function_def)
    then show ?thesis by blast
  next
    case nt: False
    show ?thesis
    proof (cases "env (nodes s ! n)")
      case None
      then show ?thesis using Some nt by (simp add: value_function_def)
    next
      case (Some e)
      obtain acc t where ro: "rollout g k (envs s ! e) (tick s) 0 = (acc, t)" by (cases "rollout g k (envs s ! e) (tick s) 0")
      have v: "value_function self g s n = Inr (acc, s\<lparr>tick := t\<rparr>)"
        using \<open>rollout_budget self = Some k\<close> nt Some ro by (simp add: value_function_def)
      have "0 \<le> acc" if "nonneg_gym self g"
        using rollout_nonneg[of g 0 k "envs s ! e" "tick s"] that ro
        unfolding nonneg_gym_def by simp
      then show ?thesis using v by blast
    qed
  qed
qed

lemma grows_stats:
  "grows base s (update_node r (\<lambda>n. n\<lparr>value_evaluation := v\<rparr>) (s\<lparr>tick := t\<rparr>))"
  by (simp add: grows_def nth_update_at)

lemma gains_stats:
  "gains s (update_node r (\<lambda>n. n\<lparr>value_evaluation := v\<rparr>) (s\<lparr>tick := t\<rparr>))"
  by (simp add: gains_def nth_update_at)

lemma same_tree_stats:
  "same_tree s (update_node r (\<lambda>n. n\<lparr>value_evaluation := v\<rparr>) (s\<lparr>tick := t\<rparr>))"
  by (simp add: same_tree_def nth_update_at)

lemma advances_stats:
  assumes "tree_ok rt base s"
  shows "advances rt base self g s (update_node r (\<lambda>n. n\<lparr>value_evaluation := v\<rparr>) (s\<lparr>tick := t\<rparr>))"
  unfolding advances_def
  using same_tree_tree_ok[OF same_tree_stats assms] grows_stats gains_stats
    same_tree_nonneg_rewards[OF same_tree_stats] by blast

lemma backup_advances:
  assumes "tree_ok rt base s" and "rt \<le> r" and "r < length (nodes s)"
    and "nonneg_gym self g \<longrightarrow> 0 \<le> v"
  shows "\<exists>s'. backup self s r v 1 = Some s' \<and> same_tree s s' \<and>
           visits (nodes s' ! rt) = visits (nodes s ! rt) + 1 \<and> advances rt base self g s s'"
proof -
  from backup_tree_gain[OF assms(1,2,3), of self v] obtain s' where
    b: "backup self s r v 1 = Some s'" "same_tree s s'"
       "visits (nodes s' ! rt) = visits (nodes s ! rt) + 1" "grows base s s'"
       "0 \<le> discount_factor self \<and> 0 \<le> v \<and> nonneg_rewards rt s \<longrightarrow> gains s s'"
    by blast
  have "nonneg_rewards rt s' \<and> gains s s'" if h: "nonneg_gym self g \<and> nonneg_rewards rt s"
  proof -
    have "0 \<le> discount_factor self \<and> 0 \<le> v" using h assms(4) unfolding nonneg_gym_def by simp
    then show ?thesis using b(5) h same_tree_nonneg_rewards[OF b(2)] by simp
  qed
  then have "advances rt base self g s s'"
    unfolding advances_def using same_tree_tree_ok[OF b(2) assms(1)] b(4) by blast
  then show ?thesis using b by blast
qed

subsection \<open>The handlers of a selected node\<close>

lemma handle_single_result:
  assumes ok: "tree_ok rt base s" and n: "rt \<le> n" "n < length (nodes s)"
  shows "\<exists>res. handle_single self g s n a = Some res \<and>
     (\<forall>s'. res = Inr s' \<longrightarrow>
        advances rt base self g s s' \<and>
        visits (nodes s' ! rt) = visits (nodes s ! rt) + 1 \<and>
        (expandable rt s \<and> a < action_space_n (nodes s ! n) \<and>
         a \<notin> fst ` set (children (nodes s ! n)) \<longrightarrow> expandable rt s')) \<and>
     (env (nodes s ! n) \<noteq> None \<longrightarrow> (\<exists>s'. res = Inr s'))"
proof -
  let ?L = "length (nodes s)"
  from expand_result[OF ok n, of g a self] show ?thesis
  proof
    assume "env (nodes s ! n) = None \<and> expand g s n a = Inl AssertionError"
    then show ?thesis by (simp add: handle_single_def)
  next
    assume "\<exists>s'. expand g s n a = Inr (?L, s') \<and> length (nodes s') = Suc ?L \<and>
        tree_ok rt base s' \<and> grows base s s' \<and> gains s s' \<and> tick s' = tick s \<and>
        visits (nodes s' ! rt) = visits (nodes s ! rt) \<and>
        env (nodes s' ! ?L) \<noteq> None \<and>
        (nonneg_gym self g \<and> nonneg_rewards rt s \<longrightarrow> nonneg_rewards rt s') \<and>
        (expandable rt s \<and> a < action_space_n (nodes s ! n) \<and>
         a \<notin> fst ` set (children (nodes s ! n)) \<longrightarrow> expandable rt s')"
    then obtain s1 where
      ex: "expand g s n a = Inr (?L, s1)" and l1: "length (nodes s1) = Suc ?L"
      and ok1: "tree_ok rt base s1" and gr1: "grows base s s1" and ga1: "gains s s1"
      and v1: "visits (nodes s1 ! rt) = visits (nodes s ! rt)"
      and e1: "env (nodes s1 ! ?L) \<noteq> None"
      and nn1: "nonneg_gym self g \<and> nonneg_rewards rt s \<longrightarrow> nonneg_rewards rt s1"
      and eb1: "expandable rt s \<and> a < action_space_n (nodes s ! n) \<and>
         a \<notin> fst ` set (children (nodes s ! n)) \<longrightarrow> expandable rt s1"
      by blast
    have a01: "advances rt base self g s s1"
      unfolding advances_def using ok1 gr1 ga1 nn1 by blast
    from value_function_result[of s1 ?L self g] e1 obtain v t where
      vf: "value_function self g s1 ?L = Inr (v, s1\<lparr>tick := t\<rparr>)"
      and vn: "nonneg_gym self g \<longrightarrow> 0 \<le> v"
      by blast
    define s2 where "s2 = update_node ?L (\<lambda>n. n\<lparr>value_evaluation := v\<rparr>) (s1\<lparr>tick := t\<rparr>)"
    have st12: "same_tree s1 s2" unfolding s2_def by (rule same_tree_stats)
    have ok2: "tree_ok rt base s2" using same_tree_tree_ok[OF st12 ok1] .
    have a12: "advances rt base self g s1 s2" unfolding s2_def by (rule advances_stats[OF ok1])
    have l2: "?L < length (nodes s2)" using same_tree_length[OF st12] l1 by simp
    have rtL: "rt \<le> ?L" using n by simp
    have v2: "visits (nodes s2 ! rt) = visits (nodes s1 ! rt)"
      by (simp add: s2_def nth_update_at)
    from backup_advances[OF ok2 rtL l2 vn] obtain s3 where
      b: "backup self s2 ?L v 1 = Some s3" "same_tree s2 s3"
         "visits (nodes s3 ! rt) = visits (nodes s2 ! rt) + 1" "advances rt base self g s2 s3"
      by blast
    have hs: "handle_single self g s n a = Some (Inr s3)"
      using ex vf b(1) by (simp add: handle_single_def s2_def)
    have adv: "advances rt base self g s s3"
      using advances_trans[OF advances_trans[OF a01 a12] b(4)] .
    have "expandable rt s3"
      if "expandable rt s \<and> a < action_space_n (nodes s ! n) \<and>
          a \<notin> fst ` set (children (nodes s ! n))"
      using eb1 that same_tree_expandable[OF same_tree_trans[OF st12 b(2)]] by blast
    then show ?thesis using hs adv b(3) v2 v1 by simp
  qed
qed

lemma advancesD:
  "advances rt base self g s s' \<Longrightarrow> tree_ok rt base s' \<and> grows base s s'"
  unfolding advances_def by blast

lemma handle_all_loop_result:
  assumes n: "rt \<le> n"
  shows "tree_ok rt base s \<Longrightarrow> n < length (nodes s) \<Longrightarrow>
    \<exists>res. handle_all_loop self g n as s = Some res \<and>
      (\<forall>s'. res = Inr s' \<longrightarrow> advances rt base self g s s')"
proof (induction as arbitrary: s)
  case Nil
  then show ?case by (simp add: advances_refl)
next
  case (Cons a as)
  from handle_single_result[OF Cons.prems(1) n Cons.prems(2), of self g a] obtain res where
    r: "handle_single self g s n a = Some res"
       "\<forall>s'. res = Inr s' \<longrightarrow> advances rt base self g s s'"
    by blast
  show ?case
  proof (cases res)
    case (Inl e)
    then show ?thesis using r(1) by simp
  next
    case (Inr s1)
    then have a1: "advances rt base self g s s1" using r(2) by simp
    have "n < length (nodes s1)" using growsD(1)[of base s s1] advancesD[OF a1] Cons.prems(2) by simp
    from Cons.IH[OF _ this] advancesD[OF a1] obtain res' where
      r': "handle_all_loop self g n as s1 = Some res'"
          "\<forall>s'. res' = Inr s' \<longrightarrow> advances rt base self g s1 s'"
      by blast
    have "handle_all_loop self g n (a # as) s = Some res'" using r(1) Inr r'(1) by simp
    then show ?thesis using r'(2) advances_trans[OF a1] by blast
  qed
qed

lemma same_tree_tick_only: "same_tree s (s\<lparr>tick := t\<rparr>)"
  by (simp add: same_tree_def)

lemma advances_tick:
  assumes "tree_ok rt base s"
  shows "advances rt base self g s (s\<lparr>tick := t\<rparr>)"
proof -
  have "tree_ok rt base (s\<lparr>tick := t\<rparr>)"
    using same_tree_tree_ok[OF same_tree_tick_only assms] .
  moreover have "nonneg_rewards rt s \<longrightarrow> nonneg_rewards rt (s\<lparr>tick := t\<rparr>)"
    using same_tree_nonneg_rewards[OF same_tree_tick_only] by blast
  moreover have "grows base s (s\<lparr>tick := t\<rparr>)" "gains s (s\<lparr>tick := t\<rparr>)"
    by (simp_all add: grows_def gains_def)
  ultimately show ?thesis unfolding advances_def by blast
qed

lemma handle_selected_node_result:
  assumes ok: "tree_ok rt base s" and n: "rt \<le> n" "n < length (nodes s)"
  shows "\<exists>res. handle_selected_node self g s n = Some res \<and>
     (\<forall>s'. res = Inr s' \<longrightarrow>
        advances rt base self g s s' \<and>
        (expansion_policy self \<noteq> None \<longrightarrow>
           visits (nodes s' ! rt) = visits (nodes s ! rt) + 1)) \<and>
     (expansion_policy self = Some DefaultExpansionPolicy \<and> expandable rt s \<and>
      \<not> is_fully_expanded (nodes s ! n) \<longrightarrow> (\<exists>s'. res = Inr s' \<and> expandable rt s'))"
proof (cases "expansion_policy self")
  case None
  from handle_all_loop_result[OF n(1) ok n(2), of self g "[0..<action_space_n (nodes s ! n)]"]
  show ?thesis using None by (simp add: handle_selected_node_def handle_all_def)
next
  case (Some policy)
  let ?s1 = "s\<lparr>tick := Suc (tick s)\<rparr>"
  have a01: "advances rt base self g s ?s1" by (rule advances_tick[OF ok])
  have ok1: "tree_ok rt base ?s1" using advancesD[OF a01] by simp
  have n1: "n < length (nodes ?s1)" using n by simp
  show ?thesis
  proof (cases "policy (nodes s) n (draw g (tick s))")
    case (Inl e)
    have hs: "handle_selected_node self g s n = Some (Inl e)"
      using Some Inl by (simp add: handle_selected_node_def)
    have "False"
      if h: "expansion_policy self = Some DefaultExpansionPolicy \<and> expandable rt s \<and>
             \<not> is_fully_expanded (nodes s ! n)"
    proof -
      have p: "policy = DefaultExpansionPolicy" using h Some by simp
      from expandableD[OF _ n, of ] h have
        "distinct (map fst (children (nodes s ! n)))"
        "\<forall>a \<in> fst ` set (children (nodes s ! n)). a < action_space_n (nodes s ! n)"
        by simp_all
      from sample_unexplored_action_total[OF this, of "draw g (tick s)"] h
      show False using Inl p by (simp add: DefaultExpansionPolicy_def)
    qed
    then show ?thesis using hs by auto
  next
    case (Inr a)
    have hs: "handle_selected_node self g s n = handle_single self g ?s1 n a"
      using Some Inr by (simp add: handle_selected_node_def)
    from handle_single_result[OF ok1 n(1) n1, of self g a] obtain res where
      r: "handle_single self g ?s1 n a = Some res"
         "\<forall>s'. res = Inr s' \<longrightarrow> advances rt base self g ?s1 s' \<and>
            visits (nodes s' ! rt) = visits (nodes ?s1 ! rt) + 1 \<and>
            (expandable rt ?s1 \<and> a < action_space_n (nodes ?s1 ! n) \<and>
             a \<notin> fst ` set (children (nodes ?s1 ! n)) \<longrightarrow> expandable rt s')"
         "env (nodes ?s1 ! n) \<noteq> None \<longrightarrow> (\<exists>s'. res = Inr s')"
      by blast
    have p1: "\<forall>s'. res = Inr s' \<longrightarrow>
        advances rt base self g s s' \<and>
        (expansion_policy self \<noteq> None \<longrightarrow> visits (nodes s' ! rt) = visits (nodes s ! rt) + 1)"
      using r(2) advances_trans[OF a01] by auto
    have p2: "\<exists>s'. res = Inr s' \<and> expandable rt s'"
      if h: "expansion_policy self = Some DefaultExpansionPolicy \<and> expandable rt s \<and>
             \<not> is_fully_expanded (nodes s ! n)"
    proof -
      have p: "policy = DefaultExpansionPolicy" using h Some by simp
      then have "sample_unexplored_action (nodes s ! n) (draw g (tick s)) = Inr a"
        using Inr by (simp add: DefaultExpansionPolicy_def)
      from sample_unexplored_action_sound[OF this] have
        a: "a < action_space_n (nodes s ! n)" "a \<notin> fst ` set (children (nodes s ! n))"
        by simp_all
      have "env (nodes s ! n) \<noteq> None" using expandableD[OF _ n, of] h by auto
      then obtain s' where s': "res = Inr s'" using r(3) by auto
      have "expandable rt ?s1" using same_tree_expandable[OF same_tree_tick_only] h by blast
      then have "expandable rt s'" using r(2) s' a by simp
      then show ?thesis using s' by blast
    qed
    show ?thesis using hs r(1) p1 p2 by simp
  qed
qed

subsection \<open>The loop of build_tree\<close>

lemma build_tree_body_result:
  assumes ok: "tree_ok rt base s"
  shows "\<exists>res. build_tree_body self g rt s = Some res \<and>
     (\<forall>s'. res = Inr s' \<longrightarrow>
        advances rt base self g s s' \<and>
        (expansion_policy self \<noteq> None \<longrightarrow>
           visits (nodes s' ! rt) = visits (nodes s ! rt) + 1)) \<and>
     (policy_ok (selection_policy self) \<and>
      expansion_policy self = Some DefaultExpansionPolicy \<and> expandable rt s \<longrightarrow>
        (\<exists>s'. res = Inr s' \<and> expandable rt s'))"
proof -
  let ?good = "policy_ok (selection_policy self) \<and>
      expansion_policy self = Some DefaultExpansionPolicy \<and> expandable rt s"
  have rt: "rt < length (nodes s)" using tree_ok_root[OF ok] by simp
  from select_total[OF ok order_refl rt, of self] obtain r0 where
    sel: "select_node_to_expand self (nodes s) rt = Some r0"
    and selr: "\<forall>sel. r0 = Inr sel \<longrightarrow> rt \<le> sel \<and> sel < length (nodes s) \<and>
         (\<not> is_terminal (nodes s ! sel) \<longrightarrow> selection_policy self (nodes s) sel = None)"
    and selg: "policy_ok (selection_policy self) \<and> expandable rt s \<longrightarrow> (\<exists>sel. r0 = Inr sel)"
    by blast
  show ?thesis
  proof (cases r0)
    case (Inl e)
    then have "build_tree_body self g rt s = Some (Inl e)"
      using sel by (simp add: build_tree_body_def)
    moreover have "\<not> ?good" using selg Inl by auto
    ultimately show ?thesis by auto
  next
    case (Inr n)
    then have n: "rt \<le> n" "n < length (nodes s)"
      and pn: "\<not> is_terminal (nodes s ! n) \<longrightarrow> selection_policy self (nodes s) n = None"
      using selr by simp_all
    show ?thesis
    proof (cases "is_terminal (nodes s ! n)")
      case True
      define s1 where "s1 = update_node n (\<lambda>n. n\<lparr>value_evaluation := 0\<rparr>) s"
      have s1': "s1 = update_node n (\<lambda>n. n\<lparr>value_evaluation := 0\<rparr>) (s\<lparr>tick := tick s\<rparr>)"
        by (simp add: s1_def)
      have st: "same_tree s s1" unfolding s1' by (rule same_tree_stats)
      have a01: "advances rt base self g s s1" unfolding s1' by (rule advances_stats[OF ok])
      have ok1: "tree_ok rt base s1" using same_tree_tree_ok[OF st ok] .
      have n1: "n < length (nodes s1)" using same_tree_length[OF st] n by simp
      have v1: "visits (nodes s1 ! rt) = visits (nodes s ! rt)"
        by (simp add: s1_def nth_update_at)
      have "nonneg_gym self g \<longrightarrow> (0::real) \<le> 0" by simp
      from backup_advances[OF ok1 n(1) n1 this] obtain s2 where
        b: "backup self s1 n 0 1 = Some s2" "same_tree s1 s2"
           "visits (nodes s2 ! rt) = visits (nodes s1 ! rt) + 1" "advances rt base self g s1 s2"
        by blast
      have body: "build_tree_body self g rt s = Some (Inr s2)"
        using sel Inr True b(1) by (simp add: build_tree_body_def s1_def)
      have "expandable rt s2" if "expandable rt s"
        using same_tree_expandable[OF same_tree_trans[OF st b(2)] that] .
      then show ?thesis using body advances_trans[OF a01 b(4)] b(3) v1 by simp
    next
      case False
      then have body: "build_tree_body self g rt s = handle_selected_node self g s n"
        using sel Inr by (simp add: build_tree_body_def)
      have nfe: "\<not> is_fully_expanded (nodes s ! n)" if h: "?good"
      proof -
        have "0 < action_space_n (nodes s ! n)" using expandableD[OF _ n, of] h by simp
        from policy_okD[OF _ n(2) this, of "selection_policy self"] h pn False
        show ?thesis by (auto split: if_splits)
      qed
      from handle_selected_node_result[OF ok n, of self g] obtain res where
        r: "handle_selected_node self g s n = Some res"
           "\<forall>s'. res = Inr s' \<longrightarrow> advances rt base self g s s' \<and>
              (expansion_policy self \<noteq> None \<longrightarrow>
                 visits (nodes s' ! rt) = visits (nodes s ! rt) + 1)"
           "expansion_policy self = Some DefaultExpansionPolicy \<and> expandable rt s \<and>
              \<not> is_fully_expanded (nodes s ! n) \<longrightarrow> (\<exists>s'. res = Inr s' \<and> expandable rt s')"
        by blast
      have "\<exists>s'. res = Inr s' \<and> expandable rt s'" if "?good"
        using r(3) nfe[OF that] that by blast
      then show ?thesis using body r(1,2) by simp
    qed
  qed
qed

lemma build_tree_stop:
  "\<not> visits (nodes s ! rt) < b \<Longrightarrow> build_tree self g rt b s = Some (Inr s)"
  by (subst build_tree.simps) simp

lemma build_tree_step:
  "visits (nodes s ! rt) < b \<Longrightarrow> build_tree_body self g rt s = Some (Inr s') \<Longrightarrow>
   build_tree self g rt b s = build_tree self g rt b s'"
  by (subst build_tree.simps) simp

lemma build_tree_total:
  assumes pol: "policy_ok (selection_policy self)"
    and exp: "expansion_policy self = Some DefaultExpansionPolicy"
  shows "tree_ok rt base s \<Longrightarrow> expandable rt s \<Longrightarrow>
     \<exists>s'. build_tree self g rt b s = Some (Inr s') \<and> advances rt base self g s s' \<and>
          expandable rt s' \<and> visits (nodes s' ! rt) = max b (visits (nodes s ! rt))"
proof (induction "nat (b - visits (nodes s ! rt))" arbitrary: s rule: less_induct)
  case less
  show ?case
  proof (cases "visits (nodes s ! rt) < b")
    case False
    then show ?thesis
      using build_tree_stop[OF False] less.prems by (simp add: advances_refl max_def)
  next
    case True
    from build_tree_body_result[OF less.prems(1), of self g] pol exp less.prems(2) obtain s1 where
      body: "build_tree_body self g rt s = Some (Inr s1)"
      and a1: "advances rt base self g s s1"
      and v1: "visits (nodes s1 ! rt) = visits (nodes s ! rt) + 1"
      and e1: "expandable rt s1"
      by fastforce
    have m: "nat (b - visits (nodes s1 ! rt)) < nat (b - visits (nodes s ! rt))"
      using True v1 by simp
    from less.hyps[OF m _ e1] advancesD[OF a1] obtain s' where
      r: "build_tree self g rt b s1 = Some (Inr s')" "advances rt base self g s1 s'"
         "expandable rt s'" "visits (nodes s' ! rt) = max b (visits (nodes s1 ! rt))"
      by blast
    have "build_tree self g rt b s = Some (Inr s')"
      using build_tree_step[OF True body] r(1) by simp
    moreover have "visits (nodes s' ! rt) = max b (visits (nodes s ! rt))"
      using r(4) v1 True by (simp add: max_def)
    ultimately show ?thesis using advances_trans[OF a1 r(2)] r(3) by blast
  qed
qed

lemma build_tree_partial_aux:
  assumes run: "build_tree self g rt b s = Some res"
  shows "tree_ok rt base s \<longrightarrow>
   (\<forall>s'. res = Inr s' \<longrightarrow> advances rt base self g s s' \<and> \<not> visits (nodes s' ! rt) < b)"
proof (induction self g rt b s res rule: build_tree.raw_induct)
  case (1 bt self g rt b s res)
  show ?case
  proof
    assume ok: "tree_ok rt base s"
    show "\<forall>s'. res = Inr s' \<longrightarrow> advances rt base self g s s' \<and> \<not> visits (nodes s' ! rt) < b"
    proof (cases "visits (nodes s ! rt) < b")
      case False
      then have "res = Inr s" using 1(2) by simp
      then show ?thesis using False ok by (simp add: advances_refl)
    next
      case True
      from build_tree_body_result[OF ok, of self g] obtain r1 where
        body: "build_tree_body self g rt s = Some r1"
        and adv: "\<forall>s'. r1 = Inr s' \<longrightarrow> advances rt base self g s s'"
        by blast
      show ?thesis
      proof (cases r1)
        case (Inl e)
        then have "res = Inl e" using 1(2) True body by simp
        then show ?thesis by simp
      next
        case (Inr s1)
        then have a1: "advances rt base self g s s1" using adv by simp
        have e1: "bt self g rt b s1 = Some res" using 1(2) True body Inr by simp
        from 1(1)[OF e1] advancesD[OF a1] have
          "\<forall>s'. res = Inr s' \<longrightarrow> advances rt base self g s1 s' \<and> \<not> visits (nodes s' ! rt) < b"
          by simp
        then show ?thesis using advances_trans[OF a1] by blast
      qed
    qed
  qed
next
  show "build_tree self g rt b s = Some res" by (rule run)
qed

lemma build_tree_partial:
  assumes "build_tree self g rt b s = Some (Inr s')" and "tree_ok rt base s"
  shows "advances rt base self g s s' \<and> \<not> visits (nodes s' ! rt) < b"
  using build_tree_partial_aux[OF assms(1), of base] assms(2) by simp

subsection \<open>Search\<close>

lemma first_child_policy_ok: "policy_ok first_child_policy"
  unfolding policy_ok_def
proof (intro allI impI)
  fix ns :: "'a node list" and r
  assume h: "r < length ns \<and> 0 < action_space_n (ns ! r)"
  show "if is_fully_expanded (ns ! r)
        then \<exists>a. first_child_policy ns r = Some a \<and> a \<in> fst ` set (children (ns ! r))
        else first_child_policy ns r = None"
  proof (cases "is_fully_expanded (ns ! r)")
    case False
    then show ?thesis by (simp add: first_child_policy_def)
  next
    case True
    then have "children (ns ! r) \<noteq> []" using h by (auto simp: is_fully_expanded_def)
    then obtain a c cs where "children (ns ! r) = (a, c) # cs"
      by (cases "children (ns ! r)") auto
    then show ?thesis using True by (simp add: first_child_policy_def)
  qed
qed

lemma search_unfold:
  assumes vf: "value_function self g
                 (s\<lparr>envs := envs s @ [envs s ! env_ref],
                    nodes := nodes s @ [node_new (Some (length (envs s))) None r
                       (env_n g (envs s ! env_ref)) False (Some obs)]\<rparr>) (length (nodes s)) =
               Inr (v, s3)"
    and b: "backup self (update_node (length (nodes s)) (\<lambda>n. n\<lparr>value_evaluation := v\<rparr>) s3)
              (length (nodes s)) v 1 = Some s4"
  shows "search self g s env_ref b' obs r =
           map_option (map_sum id (Pair (length (nodes s))))
             (build_tree self g (length (nodes s)) b' s4)"
proof -
  have d: "deepcopy s (Some env_ref) =
             (Some (length (envs s)), s\<lparr>envs := envs s @ [envs s ! env_ref]\<rparr>)"
    by (simp add: deepcopy_def)
  show ?thesis
    unfolding search_def d Let_def prod.case
    using vf b by simp
qed

lemma search_start:
  assumes e0: "env_ref < length (envs s)"
  shows "\<exists>s4. (\<forall>b. search self g s env_ref b obs r =
                  map_option (map_sum id (Pair (length (nodes s))))
                    (build_tree self g (length (nodes s)) b s4)) \<and>
           tree_ok (length (nodes s)) (length (envs s)) s4 \<and>
           grows (length (envs s)) s s4 \<and>
           visits (nodes s4 ! length (nodes s)) = 1 \<and>
           (0 < env_n g (envs s ! env_ref) \<longrightarrow> expandable (length (nodes s)) s4) \<and>
           (0 \<le> r \<longrightarrow> nonneg_rewards (length (nodes s)) s4)"
proof -
  let ?rt = "length (nodes s)"
  let ?base = "length (envs s)"
  let ?A = "env_n g (envs s ! env_ref)"
  define root where "root = (node_new (Some ?base) None r ?A False (Some obs) :: 'b node)"
  define s2 where "s2 = s\<lparr>envs := envs s @ [envs s ! env_ref], nodes := nodes s @ [root]\<rparr>"
  have n2: "nodes s2 = nodes s @ [root]" "envs s2 = envs s @ [envs s ! env_ref]"
    by (simp_all add: s2_def)
  have at: "nodes s2 ! ?rt = root" by (simp add: n2)
  have ok2: "tree_ok ?rt ?base s2"
  proof (rule tree_okI)
    show "?rt < length (nodes s2)" by (simp add: n2)
    show "parent (nodes s2 ! ?rt) = None" by (simp add: at root_def node_new_def)
    show "\<exists>p. parent (nodes s2 ! q) = Some p \<and> ?rt \<le> p \<and> p < q"
      if "?rt < q" "q < length (nodes s2)" for q using that by (simp add: n2)
    show "q < c \<and> c < length (nodes s2)"
      if "?rt \<le> q" "q < length (nodes s2)" "c \<in> snd ` set (children (nodes s2 ! q))" for q c
    proof -
      have "q = ?rt" using that(1,2) by (simp add: n2)
      then show ?thesis using that(3) by (simp add: at root_def node_new_def)
    qed
    show "?base \<le> e \<and> e < length (envs s2)"
      if "?rt \<le> q" "q < length (nodes s2)" "env (nodes s2 ! q) = Some e" for q e
    proof -
      have "q = ?rt" using that(1,2) by (simp add: n2)
      then show ?thesis using that(3) by (simp add: at root_def node_new_def n2)
    qed
  qed
  have gr2: "grows ?base s s2"
    unfolding grows_def by (simp add: n2 nth_append)
  have ex2: "expandable ?rt s2" if "0 < ?A"
  proof (rule expandableI)
    fix q assume "?rt \<le> q" "q < length (nodes s2)"
    then have "q = ?rt" by (simp add: n2)
    then show "0 < action_space_n (nodes s2 ! q) \<and>
       distinct (map fst (children (nodes s2 ! q))) \<and>
       (\<forall>a \<in> fst ` set (children (nodes s2 ! q)). a < action_space_n (nodes s2 ! q)) \<and>
       (env (nodes s2 ! q) = None \<longrightarrow> is_fully_expanded (nodes s2 ! q))"
      using that by (simp add: at root_def node_new_def)
  qed
  have nn2: "nonneg_rewards ?rt s2" if "0 \<le> r"
    unfolding nonneg_rewards_def
  proof (intro allI impI)
    fix q assume "?rt \<le> q \<and> q < length (nodes s2)"
    then have "q = ?rt" by (simp add: n2)
    then show "0 \<le> reward (nodes s2 ! q)" using that by (simp add: at root_def node_new_def)
  qed
  have "env (nodes s2 ! ?rt) \<noteq> None" by (simp add: at root_def node_new_def)
  with value_function_result[of s2 ?rt self g] obtain v t where
    vf: "value_function self g s2 ?rt = Inr (v, s2\<lparr>tick := t\<rparr>)"
    by blast
  define s3 where "s3 = update_node ?rt (\<lambda>n. n\<lparr>value_evaluation := v\<rparr>) (s2\<lparr>tick := t\<rparr>)"
  have st23: "same_tree s2 s3" unfolding s3_def by (rule same_tree_stats)
  have ok3: "tree_ok ?rt ?base s3" using same_tree_tree_ok[OF st23 ok2] .
  have gr3: "grows ?base s2 s3" unfolding s3_def by (rule grows_stats)
  have l3: "?rt < length (nodes s3)" using same_tree_length[OF st23] by (simp add: n2)
  have v3: "visits (nodes s3 ! ?rt) = 0"
    by (simp add: s3_def nth_update_at n2 root_def node_new_def)
  from backup_tree_gain[OF ok3 order_refl l3, of self v] obtain s4 where
    b: "backup self s3 ?rt v 1 = Some s4" "same_tree s3 s4"
       "visits (nodes s4 ! ?rt) = visits (nodes s3 ! ?rt) + 1" "grows ?base s3 s4"
    by blast
  have run: "search self g s env_ref b' obs r =
               map_option (map_sum id (Pair ?rt)) (build_tree self g ?rt b' s4)" for b'
    by (rule search_unfold[OF vf[unfolded s2_def root_def] b(1)[unfolded s3_def s2_def root_def]])
  have st24: "same_tree s2 s4" using same_tree_trans[OF st23 b(2)] .
  have c1: "tree_ok ?rt ?base s4" using same_tree_tree_ok[OF b(2) ok3] .
  have c2: "grows ?base s s4" using grows_trans[OF gr2 grows_trans[OF gr3 b(4)]] .
  have c3: "visits (nodes s4 ! ?rt) = 1" using b(3) v3 by simp
  have c4: "expandable ?rt s4" if "0 < ?A"
    using same_tree_expandable[OF st24 ex2[OF that]] .
  have c5: "nonneg_rewards ?rt s4" if "0 \<le> r"
    using same_tree_nonneg_rewards[OF st24 nn2[OF that]] .
  show ?thesis
  proof (intro exI[of _ s4] conjI allI impI)
    show "search self g s env_ref b' obs r =
            map_option (map_sum id (Pair ?rt)) (build_tree self g ?rt b' s4)" for b'
      by (rule run)
    show "tree_ok ?rt ?base s4" by (rule c1)
    show "grows ?base s s4" by (rule c2)
    show "visits (nodes s4 ! ?rt) = 1" by (rule c3)
    show "expandable ?rt s4" if "0 < ?A" using c4[OF that] .
    show "nonneg_rewards ?rt s4" if "0 \<le> r" using c5[OF that] .
  qed
qed

text \<open>
  Claim C7. With a selection policy that keeps its contract, single-child expansion
  (the default expansion policy), either estimator (the base class or a random rollout
  of any budget), a caller's environment that exists and has at least one action, and a
  budget \<open>b \<ge> 1\<close>: \<open>search\<close> returns, without raising, the root it has built, and the
  root's visits are exactly \<open>b\<close>.
\<close>

theorem search_root_visits:
  assumes "policy_ok (selection_policy self)"
    and "expansion_policy self = Some DefaultExpansionPolicy"
    and "env_ref < length (envs s)" and "0 < env_n g (envs s ! env_ref)" and "1 \<le> b"
  shows "\<exists>s'. search self g s env_ref b obs r = Some (Inr (length (nodes s), s')) \<and>
              visits (nodes s' ! length (nodes s)) = b"
proof -
  from search_start[OF assms(3), of self g obs r] assms(4) obtain s4 where
    run: "\<forall>b. search self g s env_ref b obs r =
            map_option (map_sum id (Pair (length (nodes s))))
              (build_tree self g (length (nodes s)) b s4)"
    and ok: "tree_ok (length (nodes s)) (length (envs s)) s4"
    and v: "visits (nodes s4 ! length (nodes s)) = 1"
    and ex: "expandable (length (nodes s)) s4"
    by blast
  from build_tree_total[OF assms(1,2) ok ex, of g b] obtain s' where
    bt: "build_tree self g (length (nodes s)) b s4 = Some (Inr s')"
        "visits (nodes s' ! length (nodes s)) = max b (visits (nodes s4 ! length (nodes s)))"
    by blast
  have "search self g s env_ref b obs r = Some (Inr (length (nodes s), s'))"
    using run bt(1) by simp
  moreover have "visits (nodes s' ! length (nodes s)) = b" using bt(2) v assms(5) by simp
  ultimately show ?thesis by blast
qed

text \<open>
  Claim C7: the theorem on the walk environment from position 0, with the zero estimator
  and budget 3, and with random rollouts of budget 5 and budget 4.
\<close>

theorem search_root_visits_witness:
  "policy_ok (selection_policy zero_mcts) \<and>
   expansion_policy zero_mcts = Some DefaultExpansionPolicy \<and>
   0 < length (envs start_state) \<and> 0 < env_n walk_gym (envs start_state ! 0) \<and>
   (\<exists>s'. search zero_mcts walk_gym start_state 0 3 0 0 = Some (Inr (0, s')) \<and>
      visits (nodes s' ! 0) = 3) \<and>
   (\<exists>s'. search (zero_mcts\<lparr>rollout_budget := Some 5\<rparr>) walk_gym start_state 0 4 0 0 =
            Some (Inr (0, s')) \<and> visits (nodes s' ! 0) = 4)"
proof -
  have p: "policy_ok (selection_policy zero_mcts)"
    "policy_ok (selection_policy (zero_mcts\<lparr>rollout_budget := Some 5\<rparr>))"
    using first_child_policy_ok by (simp_all add: zero_mcts_def)
  have e: "expansion_policy zero_mcts = Some DefaultExpansionPolicy"
    "expansion_policy (zero_mcts\<lparr>rollout_budget := Some 5\<rparr>) = Some DefaultExpansionPolicy"
    by (simp_all add: zero_mcts_def)
  have s: "0 < length (envs start_state)" "0 < env_n walk_gym (envs start_state ! 0)"
    "length (nodes start_state) = 0"
    by (simp_all add: start_state_def walk_gym_def)
  show ?thesis
    using search_root_visits[OF p(1) e(1) s(1,2), of 3 0 0]
      search_root_visits[OF p(2) e(2) s(1,2), of 4 0 0] p(1) e(1) s
    by simp
qed

subsection \<open>Environment snapshots\<close>

lemma unexplored_count:
  assumes "distinct ks" and "\<forall>a \<in> set ks. a < A"
  shows "length (filter (\<lambda>x. x \<notin> set ks) [0..<A]) = A - length ks"
proof -
  have "length (filter (\<lambda>x. x \<notin> set ks) [0..<A]) = card ({x. x \<notin> set ks} \<inter> set [0..<A])"
    by (rule distinct_length_filter) simp
  also have "{x. x \<notin> set ks} \<inter> set [0..<A] = {0..<A} - set ks" by auto
  also have "card ({0..<A} - set ks) = card {0..<A} - card (set ks)"
    using assms(2) by (intro card_Diff_subset) auto
  also have "\<dots> = A - length ks" using assms(1) by (simp add: distinct_card)
  finally show ?thesis .
qed

lemma search_frame:
  assumes "env_ref < length (envs s)"
    and "search self g s env_ref b obs r = Some (Inr (rt, s'))"
  shows "\<forall>i < length (envs s). envs s' ! i = envs s ! i"
proof -
  from search_start[OF assms(1), of self g obs r] obtain s4 where
    run: "\<forall>b. search self g s env_ref b obs r =
            map_option (map_sum id (Pair (length (nodes s))))
              (build_tree self g (length (nodes s)) b s4)"
    and ok: "tree_ok (length (nodes s)) (length (envs s)) s4"
    and gr: "grows (length (envs s)) s s4"
    by blast
  have "map_option (map_sum id (Pair (length (nodes s))))
          (build_tree self g (length (nodes s)) b s4) = Some (Inr (rt, s'))"
    using run assms(2) by simp
  then obtain res where res: "build_tree self g (length (nodes s)) b s4 = Some res"
    "map_sum id (Pair (length (nodes s))) res = Inr (rt, s')"
    by auto
  then have "res = Inr s'" by (cases res) auto
  from build_tree_partial[OF res(1)[unfolded this] ok, of] have
    "advances (length (nodes s)) (length (envs s)) self g s4 s'" by simp
  then have "grows (length (envs s)) s4 s'" using advancesD by blast
  from grows_trans[OF gr this] show ?thesis using growsD(3) by blast
qed

text \<open>
  Claim C8. At a node \<open>n\<close> that holds a snapshot \<open>e\<close> and whose children are keyed by
  distinct actions of its action space, expanding action \<open>a\<close> creates the child stored
  under \<open>a\<close>. If exactly one action of \<open>n\<close> is unexpanded, \<open>n\<close>'s reference becomes absent,
  the child holds the very environment \<open>e\<close>, and the environment store is the old one
  with \<open>e\<close> stepped once by \<open>a\<close>. Otherwise \<open>n\<close> keeps its reference, the child holds a
  fresh environment, and the store is the old one, unchanged, followed by the copy of
  \<open>e\<close> stepped once by \<open>a\<close>. Without a snapshot the expansion fails its assertion. And
  whenever \<open>search\<close> returns, every environment that existed before the call, the
  caller's among them, has the value it had.
\<close>

theorem snapshot_discipline:
  "(n < length (nodes s) \<and> env (nodes s ! n) = Some e \<and>
    distinct (map fst (children (nodes s ! n))) \<and>
    (\<forall>k \<in> fst ` set (children (nodes s ! n)). k < action_space_n (nodes s ! n)) \<longrightarrow>
      (\<exists>s1. expand g s n a = Inr (length (nodes s), s1) \<and>
         parent (nodes s1 ! length (nodes s)) = Some n \<and>
         map_of (children (nodes s1 ! n)) a = Some (length (nodes s)) \<and>
         (length (filter (\<lambda>k. k \<notin> fst ` set (children (nodes s ! n)))
                    [0..<action_space_n (nodes s ! n)]) = 1 \<longrightarrow>
            env (nodes s1 ! n) = None \<and> env (nodes s1 ! length (nodes s)) = Some e \<and>
            envs s1 = (envs s)[e := fst (env_step g (envs s ! e) a)]) \<and>
         (length (filter (\<lambda>k. k \<notin> fst ` set (children (nodes s ! n)))
                    [0..<action_space_n (nodes s ! n)]) \<noteq> 1 \<longrightarrow>
            env (nodes s1 ! n) = Some e \<and>
            env (nodes s1 ! length (nodes s)) = Some (length (envs s)) \<and>
            envs s1 = envs s @ [fst (env_step g (envs s ! e) a)]))) \<and>
   (env (nodes s ! n) = None \<longrightarrow> expand g s n a = Inl AssertionError) \<and>
   (env_ref < length (envs s) \<and> search self g s env_ref b obs r = Some (Inr (rt, s')) \<longrightarrow>
      (\<forall>i < length (envs s). envs s' ! i = envs s ! i))"
proof (intro conjI impI)
  assume "env (nodes s ! n) = None"
  then show "expand g s n a = Inl AssertionError" by (rule expand_none)
next
  assume h: "env_ref < length (envs s) \<and> search self g s env_ref b obs r = Some (Inr (rt, s'))"
  show "\<forall>i < length (envs s). envs s' ! i = envs s ! i"
    using search_frame[OF conjunct1[OF h] conjunct2[OF h]] .
next
  let ?old = "nodes s ! n"
  let ?L = "length (nodes s)"
  let ?un = "filter (\<lambda>k. k \<notin> fst ` set (children ?old)) [0..<action_space_n ?old]"
  assume h: "n < ?L \<and> env ?old = Some e \<and> distinct (map fst (children ?old)) \<and>
    (\<forall>k \<in> fst ` set (children ?old). k < action_space_n ?old)"
  obtain st obs' r' tm tr where st: "env_step g (envs s ! e) a = (st, obs', r', tm, tr)"
    by (metis prod_cases5)
  have cnt: "length ?un = action_space_n ?old - length (children ?old)"
    using unexplored_count[of "map fst (children ?old)" "action_space_n ?old"] h by simp
  have le: "length (children ?old) \<le> action_space_n ?old"
  proof -
    have "card (set (map fst (children ?old))) \<le> card {..<action_space_n ?old}"
      using h by (intro card_mono) auto
    moreover have "card (set (map fst (children ?old))) = length (map fst (children ?old))"
      using h by (intro distinct_card) simp
    ultimately show ?thesis by simp
  qed
  have one: "length ?un = 1 \<longleftrightarrow>
             int (length (children ?old)) = int (action_space_n ?old) - 1"
    using cnt le by auto
  have upd: "map_of (AList.update a ?L (children ?old)) a = Some ?L"
    by (simp add: update_conv')
  show "\<exists>s1. expand g s n a = Inr (?L, s1) \<and>
         parent (nodes s1 ! ?L) = Some n \<and>
         map_of (children (nodes s1 ! n)) a = Some ?L \<and>
         (length ?un = 1 \<longrightarrow>
            env (nodes s1 ! n) = None \<and> env (nodes s1 ! ?L) = Some e \<and>
            envs s1 = (envs s)[e := fst (env_step g (envs s ! e) a)]) \<and>
         (length ?un \<noteq> 1 \<longrightarrow>
            env (nodes s1 ! n) = Some e \<and> env (nodes s1 ! ?L) = Some (length (envs s)) \<and>
            envs s1 = envs s @ [fst (env_step g (envs s ! e) a)])"
  proof (cases "length ?un = 1")
    case True
    then have c: "int (length (children ?old)) = int (action_space_n ?old) - 1" using one by simp
    from expand_own[OF c _ _ st] h have
      "expand g s n a =
         Inr (?L, s\<lparr>nodes := (nodes s)[n := ?old
                   \<lparr>env := None, children := AList.update a ?L (children ?old)\<rparr>] @
                 [node_new (Some e) (Some n) r' (action_space_n ?old) (tm \<or> tr)
                    (if tm then None else Some obs')],
              envs := (envs s)[e := st]\<rparr>)"
      by simp
    then show ?thesis using True h st upd
      by (simp add: nth_append node_new_def)
  next
    case False
    then have c: "int (length (children ?old)) \<noteq> int (action_space_n ?old) - 1" using one by simp
    from expand_copy[OF c _ _ st] h have
      "expand g s n a =
         Inr (?L, s\<lparr>nodes := (nodes s)[n := ?old
                   \<lparr>children := AList.update a ?L (children ?old)\<rparr>] @
                 [node_new (Some (length (envs s))) (Some n) r' (action_space_n ?old) (tm \<or> tr)
                    (if tm then None else Some obs')],
              envs := envs s @ [st]\<rparr>)"
      by simp
    then show ?thesis using False h st upd
      by (simp add: nth_append node_new_def)
  qed
qed

text \<open>
  Claim C8: the theorem at the leaf of the chain, whose single action is the last one
  unexpanded; at a fresh root with two actions, which is cloned; and on a search of
  budget 3 in the walk environment.
\<close>

theorem snapshot_discipline_witness:
  "(\<exists>s1. expand walk_gym chain_state 2 0 = Inr (3, s1) \<and> env (nodes s1 ! 2) = None \<and>
      env (nodes s1 ! 3) = Some 0 \<and> envs s1 = [3]) \<and>
   (\<exists>s1. expand walk_gym debt_state 0 1 = Inr (1, s1) \<and> env (nodes s1 ! 0) = Some 1 \<and>
      env (nodes s1 ! 1) = Some 2 \<and> envs s1 = [0, 0, 2]) \<and>
   (\<exists>s'. search zero_mcts walk_gym start_state 0 3 0 0 = Some (Inr (0, s')) \<and>
      envs s' ! 0 = envs start_state ! 0)"
proof -
  have a: "2 < length (nodes chain_state) \<and> env (nodes chain_state ! 2) = Some 0 \<and>
    distinct (map fst (children (nodes chain_state ! 2))) \<and>
    (\<forall>k \<in> fst ` set (children (nodes chain_state ! 2)).
        k < action_space_n (nodes chain_state ! 2))"
    by (simp add: chain_state_def node_new_def)
  have a1: "length (filter (\<lambda>k. k \<notin> fst ` set (children (nodes chain_state ! 2)))
              [0..<action_space_n (nodes chain_state ! 2)]) = 1"
    "length (nodes chain_state) = 3" "envs chain_state = [2]"
    "fst (env_step walk_gym (envs chain_state ! 0) 0) = 3"
    by (simp_all add: chain_state_def node_new_def walk_gym_def)
  have p1: "\<exists>s1. expand walk_gym chain_state 2 0 = Inr (3, s1) \<and> env (nodes s1 ! 2) = None \<and>
      env (nodes s1 ! 3) = Some 0 \<and> envs s1 = [3]"
    using snapshot_discipline[where n = 2 and s = chain_state and e = 0 and g = walk_gym
        and a = 0, THEN conjunct1, THEN mp, OF a] a1
    by auto
  have b: "0 < length (nodes debt_state) \<and> env (nodes debt_state ! 0) = Some 1 \<and>
    distinct (map fst (children (nodes debt_state ! 0))) \<and>
    (\<forall>k \<in> fst ` set (children (nodes debt_state ! 0)).
        k < action_space_n (nodes debt_state ! 0))"
    by (simp add: debt_state_def node_new_def)
  have b1: "length (filter (\<lambda>k. k \<notin> fst ` set (children (nodes debt_state ! 0)))
              [0..<action_space_n (nodes debt_state ! 0)]) \<noteq> 1"
    "length (nodes debt_state) = 1" "envs debt_state = [0, 0]"
    "fst (env_step walk_gym (envs debt_state ! 1) 1) = 2"
    by (simp_all add: debt_state_def node_new_def walk_gym_def upt_rec)
  have p2: "\<exists>s1. expand walk_gym debt_state 0 1 = Inr (1, s1) \<and> env (nodes s1 ! 0) = Some 1 \<and>
      env (nodes s1 ! 1) = Some 2 \<and> envs s1 = [0, 0, 2]"
    using snapshot_discipline[where n = 0 and s = debt_state and e = 1 and g = walk_gym
        and a = 1, THEN conjunct1, THEN mp, OF b] b1
    by auto
  have c: "policy_ok (selection_policy zero_mcts)"
    "expansion_policy zero_mcts = Some DefaultExpansionPolicy"
    "0 < length (envs start_state)" "0 < env_n walk_gym (envs start_state ! 0)"
    "length (nodes start_state) = 0"
    using first_child_policy_ok by (simp_all add: zero_mcts_def start_state_def walk_gym_def)
  from search_start[OF c(3), of zero_mcts walk_gym 0 0] c(4,5) obtain s4 where
    run: "\<forall>b. search zero_mcts walk_gym start_state 0 b 0 0 =
            map_option (map_sum id (Pair 0)) (build_tree zero_mcts walk_gym 0 b s4)"
    and ok: "tree_ok 0 (length (envs start_state)) s4" and ex: "expandable 0 s4"
    by auto
  from build_tree_total[OF c(1,2) ok ex, of walk_gym 3] obtain s' where
    "build_tree zero_mcts walk_gym 0 3 s4 = Some (Inr s')" by blast
  then have s': "search zero_mcts walk_gym start_state 0 3 0 0 = Some (Inr (0, s'))"
    using run by simp
  have "envs s' ! 0 = envs start_state ! 0"
    using snapshot_discipline[where s = start_state and env_ref = 0 and self = zero_mcts
        and g = walk_gym and b = 3 and obs = 0 and r = 0 and rt = 0 and s' = s',
        THEN conjunct2, THEN conjunct2, THEN mp] s' c(3)
    by simp
  then show ?thesis using p1 p2 s' by blast
qed

subsection \<open>Terminal roots\<close>

lemma terminal_body:
  assumes "terminal (nodes s ! rt)" and "parent (nodes s ! rt) = None"
  shows "build_tree_body self g rt s =
           Some (Inr (s\<lparr>nodes := (nodes s)[rt := (nodes s ! rt)
                   \<lparr>value_evaluation := 0,
                    subtree_sum := subtree_sum (nodes s ! rt) + reward (nodes s ! rt),
                    visits := visits (nodes s ! rt) + 1\<rparr>]\<rparr>))"
proof -
  have sel: "select_node_to_expand self (nodes s) rt = Some (Inr rt)"
    using assms(1) by (subst select_node_to_expand.simps) (simp add: is_terminal_def)
  show ?thesis
  proof (cases "rt < length (nodes s)")
    case True
    then show ?thesis
      using sel assms
      by (simp add: build_tree_body_def is_terminal_def backup_def backup_loop_Some
          backup_loop_None bump_def)
  next
    case False
    then show ?thesis
      using sel assms
      by (simp add: build_tree_body_def is_terminal_def backup_def backup_loop_Some
          backup_loop_None bump_def list_update_beyond)
  qed
qed

lemma terminal_loop:
  assumes "rt < length (nodes s)"
  shows "terminal (nodes s ! rt) \<Longrightarrow> parent (nodes s ! rt) = None \<Longrightarrow>
    build_tree self g rt b s =
      Some (Inr (s\<lparr>nodes := (nodes s)[rt := (nodes s ! rt)
              \<lparr>value_evaluation :=
                 (if visits (nodes s ! rt) < b then 0 else value_evaluation (nodes s ! rt)),
               subtree_sum := subtree_sum (nodes s ! rt) +
                 real_of_int (max b (visits (nodes s ! rt)) - visits (nodes s ! rt)) *
                   reward (nodes s ! rt),
               visits := max b (visits (nodes s ! rt))\<rparr>]\<rparr>))"
  using assms
proof (induction "nat (b - visits (nodes s ! rt))" arbitrary: s rule: less_induct)
  case less
  let ?nd = "nodes s ! rt"
  show ?case
  proof (cases "visits ?nd < b")
    case False
    have "(nodes s)[rt := ?nd\<lparr>value_evaluation := value_evaluation ?nd,
             subtree_sum := subtree_sum ?nd, visits := visits ?nd\<rparr>] = nodes s"
      by simp
    then show ?thesis using build_tree_stop[OF False, of self g] False by (simp add: max_def)
  next
    case True
    define nd1 where "nd1 = ?nd\<lparr>value_evaluation := 0,
        subtree_sum := subtree_sum ?nd + reward ?nd, visits := visits ?nd + 1\<rparr>"
    define s1 where "s1 = s\<lparr>nodes := (nodes s)[rt := nd1]\<rparr>"
    have body: "build_tree_body self g rt s = Some (Inr s1)"
      using terminal_body[OF less.prems(1,2), of self g] by (simp add: s1_def nd1_def)
    have at: "nodes s1 ! rt = nd1" using less.prems(3) by (simp add: s1_def)
    have m: "nat (b - visits (nodes s1 ! rt)) < nat (b - visits (nodes s ! rt))"
      using True by (simp add: at nd1_def)
    have t1: "terminal (nodes s1 ! rt)" "parent (nodes s1 ! rt) = None" "rt < length (nodes s1)"
      using less.prems by (simp_all add: at nd1_def s1_def)
    have "build_tree self g rt b s = build_tree self g rt b s1"
      using build_tree_step[OF True body] .
    also have "\<dots> = Some (Inr (s1\<lparr>nodes := (nodes s1)[rt := nd1
              \<lparr>value_evaluation := (if visits nd1 < b then 0 else value_evaluation nd1),
               subtree_sum := subtree_sum nd1 +
                 real_of_int (max b (visits nd1) - visits nd1) * reward nd1,
               visits := max b (visits nd1)\<rparr>]\<rparr>))"
      using less.hyps[OF m t1] by (simp add: at)
    also have "\<dots> = Some (Inr (s\<lparr>nodes := (nodes s)[rt := ?nd
              \<lparr>value_evaluation := (if visits ?nd < b then 0 else value_evaluation ?nd),
               subtree_sum := subtree_sum ?nd +
                 real_of_int (max b (visits ?nd) - visits ?nd) * reward ?nd,
               visits := max b (visits ?nd)\<rparr>]\<rparr>))"
    proof -
      have vis: "max b (visits nd1) = b" "max b (visits ?nd) = b"
        using True by (simp_all add: nd1_def max_def)
      have ve: "(if visits nd1 < b then 0 else value_evaluation nd1) = 0"
        by (simp add: nd1_def)
      have sm: "subtree_sum nd1 + real_of_int (b - visits nd1) * reward nd1 =
                subtree_sum ?nd + real_of_int (b - visits ?nd) * reward ?nd"
        by (simp add: nd1_def algebra_simps)
      have "nd1\<lparr>value_evaluation := 0,
               subtree_sum := subtree_sum ?nd + real_of_int (b - visits ?nd) * reward ?nd,
               visits := b\<rparr> =
            ?nd\<lparr>value_evaluation := 0,
               subtree_sum := subtree_sum ?nd + real_of_int (b - visits ?nd) * reward ?nd,
               visits := b\<rparr>"
        by (simp add: nd1_def)
      then show ?thesis using True unfolding vis ve sm by (simp add: s1_def)
    qed
    finally show ?thesis .
  qed
qed

text \<open>
  Claim C9, as stated, fails. \<open>search\<close> builds its root with \<open>terminal = False\<close> whatever
  the state of the environment: started on the walk environment at its terminal
  position, with budget 2 and incoming reward 1, it expands the root, which ends with a
  child under action 0 and a default value of 5/4.
\<close>

theorem search_terminal_root_counterexample:
  "search zero_mcts walk_gym done_state 0 2 3 1 =
     Some (Inr (0,
       \<lparr>nodes =
          [\<lparr>parent = None, children = [(0, 1)], action_space_n = 2, reward = 1,
              observation = Some 3, terminal = False, visits = 2, subtree_sum = 5 / 2,
              value_evaluation = 0, env = Some 1\<rparr>,
           \<lparr>parent = Some 0, children = [], action_space_n = 2, reward = 1,
              observation = None, terminal = True, visits = 1, subtree_sum = 1,
              value_evaluation = 0, env = Some 2\<rparr>],
        envs = [3, 3, 4], tick = 1\<rparr>)) \<and>
   default_value
     \<lparr>parent = None, children = [(0, 1)], action_space_n = 2, reward = 1,
        observation = Some (3::nat), terminal = False, visits = 2, subtree_sum = 5 / 2,
        value_evaluation = 0, env = Some 1\<rparr> = 5 / 4"
  by code_simp

text \<open>
  Claim C9, amended. When \<open>build_tree\<close> runs on a root that is marked terminal and has
  no parent, for every budget \<open>b\<close>: it returns without raising, no node is created and
  no other node changes, the root keeps its children, its visits become the larger of
  \<open>b\<close> and its previous visits, and its reward has been added to \<open>subtree_sum\<close> once per
  added visit. So if \<open>subtree_sum\<close> was \<open>visits \<cdot> reward\<close> before and the root ends visited,
  \<open>default_value()\<close> is the root's reward, which is 0 only for a reward of 0.
\<close>

theorem build_tree_terminal_root:
  assumes "rt < length (nodes s)" and "terminal (nodes s ! rt)"
    and "parent (nodes s ! rt) = None"
  shows "\<exists>s'. build_tree self g rt b s = Some (Inr s') \<and>
           envs s' = envs s \<and> length (nodes s') = length (nodes s) \<and>
           (\<forall>q < length (nodes s). q \<noteq> rt \<longrightarrow> nodes s' ! q = nodes s ! q) \<and>
           children (nodes s' ! rt) = children (nodes s ! rt) \<and>
           visits (nodes s' ! rt) = max b (visits (nodes s ! rt)) \<and>
           subtree_sum (nodes s' ! rt) =
             subtree_sum (nodes s ! rt) +
             real_of_int (max b (visits (nodes s ! rt)) - visits (nodes s ! rt)) *
               reward (nodes s ! rt) \<and>
           (subtree_sum (nodes s ! rt) = real_of_int (visits (nodes s ! rt)) * reward (nodes s ! rt) \<and>
            0 < max b (visits (nodes s ! rt)) \<longrightarrow>
              default_value (nodes s' ! rt) = reward (nodes s ! rt))"
proof -
  let ?nd = "nodes s ! rt"
  let ?m = "max b (visits ?nd)"
  define s' where "s' = s\<lparr>nodes := (nodes s)[rt := ?nd
              \<lparr>value_evaluation := (if visits ?nd < b then 0 else value_evaluation ?nd),
               subtree_sum := subtree_sum ?nd + real_of_int (?m - visits ?nd) * reward ?nd,
               visits := ?m\<rparr>]\<rparr>"
  have run: "build_tree self g rt b s = Some (Inr s')"
    unfolding s'_def by (rule terminal_loop[OF assms])
  have dv: "default_value (nodes s' ! rt) = reward ?nd"
    if h: "subtree_sum ?nd = real_of_int (visits ?nd) * reward ?nd \<and> 0 < ?m"
  proof -
    have "subtree_sum ?nd + real_of_int (?m - visits ?nd) * reward ?nd =
          real_of_int ?m * reward ?nd"
      using h by (simp add: algebra_simps)
    then show ?thesis using h assms(1) by (simp add: s'_def default_value_def)
  qed
  show ?thesis
    apply (rule exI[of _ s'])
    using run dv assms(1) by (simp add: s'_def)
qed

text \<open>
  Claim C9, amended: the theorem on a terminal root with reward 1 that was visited once,
  for budget 5.
\<close>

theorem build_tree_terminal_root_witness:
  "terminal (nodes terminal_state ! 0) \<and> parent (nodes terminal_state ! 0) = None \<and>
   reward (nodes terminal_state ! 0) = 1 \<and>
   (\<exists>s'. build_tree zero_mcts walk_gym 0 5 terminal_state = Some (Inr s') \<and>
      length (nodes s') = 1 \<and> children (nodes s' ! 0) = [] \<and>
      visits (nodes s' ! 0) = 5 \<and> default_value (nodes s' ! 0) = 1)"
proof -
  have h: "0 < length (nodes terminal_state)" "terminal (nodes terminal_state ! 0)"
    "parent (nodes terminal_state ! 0) = None"
    by (simp_all add: terminal_state_def node_new_def)
  have v: "reward (nodes terminal_state ! 0) = 1" "visits (nodes terminal_state ! 0) = 1"
    "subtree_sum (nodes terminal_state ! 0) = 1" "children (nodes terminal_state ! 0) = []"
    "length (nodes terminal_state) = 1"
    by (simp_all add: terminal_state_def node_new_def)
  show ?thesis
    using build_tree_terminal_root[OF h, of zero_mcts walk_gym 5] h v by auto
qed

subsection \<open>Monotone statistics\<close>




section \<open>Properties of policies/policies.py\<close>

lemma replicate_last_one: "(replicate (Suc n) (0::real))[n := 1] = replicate n 0 @ [1]"
  by (induction n) simp_all

text \<open>
  Claim C10. For a node with no children, \<open>softmaxed_distribution\<close> with
  \<open>include_self=True\<close> returns the distribution over \<open>A + 1\<close> slots that puts 0 on each of
  the \<open>A\<close> action slots and 1 on the last slot, whatever the temperature and the policy.
\<close>

theorem softmaxed_distribution_leaf:
  assumes "children node = []"
  shows "softmaxed_distribution self node True = replicate (action_space_n node) 0 @ [1]"
proof -
  have "Categorical_probs (replicate (action_space_n node) 0 @ [1]) =
        replicate (action_space_n node) 0 @ [1]"
    by (simp add: Categorical_probs_def sum_list_replicate)
  moreover have "(replicate (action_space_n node + 1) (0::real))
                   [length (replicate (action_space_n node + 1) (0::real)) - 1 := 1] =
                 replicate (action_space_n node) 0 @ [1]"
    using replicate_last_one[of "action_space_n node"] by (simp del: replicate.simps)
  ultimately show ?thesis
    using assms by (simp add: softmaxed_distribution_def Let_def del: replicate.simps)
qed

text \<open>
  Claim C10: the theorem at a leaf with one action, for a temperature of 1/2 and for no
  temperature.
\<close>

theorem softmaxed_distribution_leaf_witness:
  "children (nodes chain_state ! 2) = [] \<and>
   softmaxed_distribution \<lparr>temperature = Some (1 / 2), probs_fn = (\<lambda>n. [])\<rparr>
     (nodes chain_state ! 2) True = [0, 1] \<and>
   softmaxed_distribution \<lparr>temperature = None, probs_fn = (\<lambda>n. [])\<rparr>
     (nodes chain_state ! 2) True = [0, 1]"
proof -
  have c: "children (nodes chain_state ! 2) = []" "action_space_n (nodes chain_state ! 2) = 1"
    by (simp_all add: chain_state_def node_new_def)
  show ?thesis
    using softmaxed_distribution_leaf[OF c(1), of "\<lparr>temperature = Some (1 / 2), probs_fn = (\<lambda>n. [])\<rparr>"]
      softmaxed_distribution_leaf[OF c(1), of "\<lparr>temperature = None, probs_fn = (\<lambda>n. [])\<rparr>"] c
    by simp
qed

end
